theory Spec2Isabelle
  imports Complex_Main
begin

unbundle bit_operations_syntax

section \<open>The Go library functions the dashboard usecase relies on\<close>

text \<open>
  The usecase (package \<^verbatim>\<open>usecase\<close>, type \<^verbatim>\<open>DashboardUsecase\<close>) reads every sample value
  as a string and converts it with \<^verbatim>\<open>strconv\<close>. Go's \<^verbatim>\<open>int\<close> is the 64-bit signed
  integer; here it is an \<open>int\<close> with the wrap-around of an addition written out
  (\<open>wrap64\<close>).
\<close>

definition maxInt64 :: int where
  "maxInt64 = 9223372036854775807"

definition minInt64 :: int where
  "minInt64 = - 9223372036854775808"

definition wrap64 :: "int \<Rightarrow> int" where
  "wrap64 x = (x + 9223372036854775808) mod 18446744073709551616 - 9223372036854775808"

text \<open>Go's \<^verbatim>\<open>/\<close> on integers truncates towards zero.\<close>

definition quo :: "int \<Rightarrow> int \<Rightarrow> int" where
  "quo a b = sgn a * sgn b * (\<bar>a\<bar> div \<bar>b\<bar>)"

subsection \<open>strconv.Atoi and strconv.Itoa\<close>

datatype num_error = ErrSyntax | ErrRange

definition digit_of :: "char \<Rightarrow> nat option" where
  "digit_of c =
     (let n = (of_char c :: nat) in if 48 \<le> n \<and> n \<le> 57 then Some (n - 48) else None)"

definition maxUint64 :: nat where
  "maxUint64 = 18446744073709551615"

text \<open>
  The loop of \<^verbatim>\<open>strconv.ParseUint(s, 10, 64)\<close> over the bytes of \<open>s\<close>, from the left: a
  byte that is not a decimal digit ends it with the value 0 and a syntax error; a digit
  with which the number would pass the largest \<^verbatim>\<open>uint64\<close> ends it with that largest
  value and a range error, whatever follows.
\<close>

fun ParseUint_loop :: "nat \<Rightarrow> string \<Rightarrow> nat \<times> num_error option" where
  "ParseUint_loop n [] = (n, None)"
| "ParseUint_loop n (c # cs) =
     (case digit_of c of
        None \<Rightarrow> (0, Some ErrSyntax)
      | Some d \<Rightarrow>
          if maxUint64 < n * 10 + d then (maxUint64, Some ErrRange)
          else ParseUint_loop (n * 10 + d) cs)"

definition ParseUint :: "string \<Rightarrow> nat \<times> num_error option" where
  "ParseUint s = (if s = [] then (0, Some ErrSyntax) else ParseUint_loop 0 s)"

text \<open>
  \<^verbatim>\<open>strconv.Atoi(s)\<close> returns a value and an error: an optional sign, then one or more
  decimal digits (\<^verbatim>\<open>ParseInt(s, 10, 0)\<close>; the fast path for short strings gives the same
  results). On a syntax error the value is 0; a number outside the 64-bit range gives
  the nearest bound together with a range error. The pair is kept, since
  \<^verbatim>\<open>getStackMemoryDisk\<close> drops the error and uses the value.
\<close>

definition Atoi :: "string \<Rightarrow> int \<times> num_error option" where
  "Atoi s =
     (let (neg, ds) =
            (case s of
               [] \<Rightarrow> (False, s)
             | c # cs \<Rightarrow> if c = CHR ''+'' then (False, cs)
                        else if c = CHR ''-'' then (True, cs) else (False, s))
      in case ParseUint ds of
           (un, Some ErrSyntax) \<Rightarrow> (0, Some ErrSyntax)
         | (un, err) \<Rightarrow>
             if \<not> neg \<and> 9223372036854775808 \<le> un then (maxInt64, Some ErrRange)
             else if neg \<and> 9223372036854775808 < un then (minInt64, Some ErrRange)
             else (if neg then - int un else int un, None))"

fun digits :: "nat \<Rightarrow> string" where
  "digits n = (if n < 10 then [''0123456789'' ! n]
               else digits (n div 10) @ [''0123456789'' ! (n mod 10)])"

declare digits.simps [simp del]

text \<open>\<^verbatim>\<open>strconv.Itoa(i)\<close>, which is also what \<^verbatim>\<open>fmt.Sprintf("%d", i)\<close> prints.\<close>

definition Itoa :: "int \<Rightarrow> string" where
  "Itoa i = (if i < 0 then CHR ''-'' # digits (nat (- i)) else digits (nat i))"

section \<open>Floating-point numbers\<close>

text \<open>
  A \<^verbatim>\<open>float32\<close> or \<^verbatim>\<open>float64\<close> value: a finite value with its sign bit (\<open>True\<close> for
  a negative number, so that both zeros exist) and its magnitude, an infinity with its
  sign, or NaN. Every finite binary floating-point number is a rational number, so the
  arithmetic is exact arithmetic on \<open>rat\<close> followed by the rounding of IEEE 754
  (to nearest, ties to even).
\<close>

datatype gofloat = Finite bool rat | Infinite bool | NaN

record format =
  precision :: nat
  emin :: int
  emax :: int

definition binary32 :: format where
  "binary32 = \<lparr>precision = 24, emin = - 126, emax = 127\<rparr>"

definition binary64 :: format where
  "binary64 = \<lparr>precision = 53, emin = - 1022, emax = 1023\<rparr>"

definition pow2 :: "int \<Rightarrow> rat" where
  "pow2 n = (if 0 \<le> n then 2 ^ nat n else 1 / 2 ^ nat (- n))"

fun bitlen_nat :: "nat \<Rightarrow> nat" where
  "bitlen_nat n = (if n = 0 then 0 else Suc (bitlen_nat (n div 2)))"

declare bitlen_nat.simps [simp del]

text \<open>The exponent of a positive number: \<open>pow2 (ilog2 x) \<le> x < pow2 (ilog2 x + 1)\<close>.\<close>

definition ilog2 :: "rat \<Rightarrow> int" where
  "ilog2 x = (if 1 \<le> x then int (bitlen_nat (nat \<lfloor>x\<rfloor>)) - 1
              else - int (bitlen_nat (nat (\<lceil>1 / x\<rceil> - 1))))"

definition round_half_even :: "rat \<Rightarrow> int" where
  "round_half_even x =
     (let f = \<lfloor>x\<rfloor>; r = x - of_int f
      in if r < 1 / 2 then f else if 1 / 2 < r then f + 1
         else if even f then f else f + 1)"

text \<open>
  The magnitude \<open>x\<close> rounded to the precision of the format; below the smallest normal
  number the spacing is that of the subnormal numbers.
\<close>

definition round_mag :: "format \<Rightarrow> rat \<Rightarrow> rat" where
  "round_mag f x =
     (if x = 0 then 0
      else let e = max (ilog2 x) (emin f);
               q = pow2 (e - int (precision f) + 1)
           in of_int (round_half_even (x / q)) * q)"

definition fl :: "format \<Rightarrow> bool \<Rightarrow> rat \<Rightarrow> gofloat" where
  "fl f s x = (let y = round_mag f x
               in if pow2 (emax f + 1) \<le> y then Infinite s else Finite s y)"

text \<open>The conversion \<^verbatim>\<open>float32(i)\<close> of an integer.\<close>

definition float32 :: "int \<Rightarrow> gofloat" where
  "float32 i = fl binary32 (i < 0) (of_int \<bar>i\<bar>)"

fun f_quo :: "format \<Rightarrow> gofloat \<Rightarrow> gofloat \<Rightarrow> gofloat" where
  "f_quo f NaN b = NaN"
| "f_quo f a NaN = NaN"
| "f_quo f (Infinite s) (Infinite t) = NaN"
| "f_quo f (Infinite s) (Finite t y) = Infinite (s \<noteq> t)"
| "f_quo f (Finite s x) (Infinite t) = Finite (s \<noteq> t) 0"
| "f_quo f (Finite s x) (Finite t y) =
     (if y = 0 then (if x = 0 then NaN else Infinite (s \<noteq> t))
      else fl f (s \<noteq> t) (x / y))"

fun f_mul :: "format \<Rightarrow> gofloat \<Rightarrow> gofloat \<Rightarrow> gofloat" where
  "f_mul f NaN b = NaN"
| "f_mul f a NaN = NaN"
| "f_mul f (Infinite s) (Infinite t) = Infinite (s \<noteq> t)"
| "f_mul f (Infinite s) (Finite t y) = (if y = 0 then NaN else Infinite (s \<noteq> t))"
| "f_mul f (Finite s x) (Infinite t) = (if x = 0 then NaN else Infinite (s \<noteq> t))"
| "f_mul f (Finite s x) (Finite t y) = fl f (s \<noteq> t) (x * y)"

text \<open>
  A difference that is exactly zero is \<open>+0\<close>, except \<open>(-0) - (+0) = -0\<close>.
\<close>

fun f_sub :: "format \<Rightarrow> gofloat \<Rightarrow> gofloat \<Rightarrow> gofloat" where
  "f_sub f NaN b = NaN"
| "f_sub f a NaN = NaN"
| "f_sub f (Infinite s) (Infinite t) = (if s = t then NaN else Infinite s)"
| "f_sub f (Infinite s) (Finite t y) = Infinite s"
| "f_sub f (Finite s x) (Infinite t) = Infinite (\<not> t)"
| "f_sub f (Finite s x) (Finite t y) =
     (let d = (if s then - x else x) - (if t then - y else y)
      in if d = 0 then Finite (x = 0 \<and> y = 0 \<and> s \<and> \<not> t) 0
         else fl f (d < 0) \<bar>d\<bar>)"

subsection \<open>fmt.Sprintf with the verbs \<^verbatim>\<open>%f\<close> and \<^verbatim>\<open>%0.2f\<close>\<close>

text \<open>
  The decimal expansion of the exact value, rounded to \<open>prec\<close> digits after the point
  (to nearest, ties to even), with the sign of the sign bit; an infinity prints with
  its sign and NaN without.
\<close>

definition pad0 :: "nat \<Rightarrow> string \<Rightarrow> string" where
  "pad0 w s = replicate (w - length s) (CHR ''0'') @ s"

fun Sprintf_f :: "nat \<Rightarrow> gofloat \<Rightarrow> string" where
  "Sprintf_f prec (Finite s x) =
     (let n = nat (round_half_even (x * 10 ^ prec))
      in (if s then ''-'' else []) @ digits (n div 10 ^ prec) @
         (if prec = 0 then [] else ''.'' @ pad0 prec (digits (n mod 10 ^ prec))))"
| "Sprintf_f prec (Infinite s) = (if s then ''-Inf'' else ''+Inf'')"
| "Sprintf_f prec NaN = ''NaN''"

section \<open>Times and dates\<close>

text \<open>
  A \<^verbatim>\<open>time.Time\<close>: the seconds since 1970-01-01T00:00:00Z and the offset of its
  location east of UTC, in seconds (0 for \<^verbatim>\<open>time.UTC\<close>). The nanoseconds are left out:
  the usecase compares and formats days only. The calendar is the proleptic Gregorian
  calendar of the library; years and days are unbounded integers.
\<close>

record Time =
  unix :: int
  zone :: int

definition isLeap :: "int \<Rightarrow> bool" where
  "isLeap year \<longleftrightarrow> year mod 4 = 0 \<and> (year mod 100 \<noteq> 0 \<or> year mod 400 = 0)"

text \<open>The days of a non-leap year before the month \<open>m\<close> (1 to 13).\<close>

definition daysBefore :: "int \<Rightarrow> int" where
  "daysBefore m = [0, 31, 59, 90, 120, 151, 181, 212, 243, 273, 304, 334, 365] ! nat (m - 1)"

definition monthStart :: "int \<Rightarrow> int \<Rightarrow> int" where
  "monthStart year m = daysBefore m + (if isLeap year \<and> 3 \<le> m then 1 else 0)"

text \<open>The days from 0001-01-01 to the first day of a year, and from 1970-01-01 to a date.\<close>

definition days_before_year :: "int \<Rightarrow> int" where
  "days_before_year y = 365 * (y - 1) + (y - 1) div 4 - (y - 1) div 100 + (y - 1) div 400"

definition days_from_civil :: "int \<Rightarrow> int \<Rightarrow> int \<Rightarrow> int" where
  "days_from_civil y m d = days_before_year y + monthStart y m + (d - 1) - 719162"

text \<open>
  \<^verbatim>\<open>time.Date(year, month, day, 0, 0, 0, 0, time.UTC)\<close>: a month outside 1 to 12 carries
  into the year, and a day outside the month counts on from the first of the month.
\<close>

definition Date_UTC :: "int \<Rightarrow> int \<Rightarrow> int \<Rightarrow> Time" where
  "Date_UTC year month day =
     (let y = year + (month - 1) div 12;
          m = (month - 1) mod 12 + 1
      in \<lparr>unix = 86400 * days_from_civil y m day, zone = 0\<rparr>)"

definition year_of_days :: "int \<Rightarrow> int" where
  "year_of_days n =
     (let a = n + 719162;
          y = 400 * a div 146097 + 1
      in if a < days_before_year y then y - 1
         else if days_before_year (y + 1) \<le> a then y + 1
         else y)"

definition month_of_yday :: "int \<Rightarrow> int \<Rightarrow> int" where
  "month_of_yday year yday =
     (if yday < monthStart year 2 then 1
      else if yday < monthStart year 3 then 2
      else if yday < monthStart year 4 then 3
      else if yday < monthStart year 5 then 4
      else if yday < monthStart year 6 then 5
      else if yday < monthStart year 7 then 6
      else if yday < monthStart year 8 then 7
      else if yday < monthStart year 9 then 8
      else if yday < monthStart year 10 then 9
      else if yday < monthStart year 11 then 10
      else if yday < monthStart year 12 then 11
      else 12)"

definition civil_of_days :: "int \<Rightarrow> int \<times> int \<times> int" where
  "civil_of_days n =
     (let y = year_of_days n;
          yday = n + 719162 - days_before_year y;
          m = month_of_yday y yday
      in (y, m, yday - monthStart y m + 1))"

text \<open>\<^verbatim>\<open>t.Date()\<close>, \<^verbatim>\<open>t.Year()\<close>, \<^verbatim>\<open>t.Month()\<close>, \<^verbatim>\<open>t.Day()\<close>: in the location of \<open>t\<close>.\<close>

definition Time_Date :: "Time \<Rightarrow> int \<times> int \<times> int" where
  "Time_Date t = civil_of_days ((unix t + zone t) div 86400)"

definition Time_Year :: "Time \<Rightarrow> int" where
  "Time_Year t = fst (Time_Date t)"

definition Time_Month :: "Time \<Rightarrow> int" where
  "Time_Month t = fst (snd (Time_Date t))"

definition Time_Day :: "Time \<Rightarrow> int" where
  "Time_Day t = snd (snd (Time_Date t))"

text \<open>
  \<^verbatim>\<open>t.Format("2006-01-02")\<close>: the year with at least four digits, the month and the day
  with two, each padded with zeros; a negative year has a minus sign in front.
\<close>

definition appendInt :: "int \<Rightarrow> nat \<Rightarrow> string" where
  "appendInt x width =
     (if x < 0 then CHR ''-'' # pad0 width (digits (nat (- x))) else pad0 width (digits (nat x)))"

definition Time_Format :: "Time \<Rightarrow> string" where
  "Time_Format t =
     (let (year, month, day) = Time_Date t
      in appendInt year 4 @ ''-'' @ appendInt month 2 @ ''-'' @ appendInt day 2)"

text \<open>\<^verbatim>\<open>t.Add(d)\<close> with the duration in seconds, \<^verbatim>\<open>t.After(u)\<close>, \<^verbatim>\<open>t.IsZero()\<close>.\<close>

definition Time_Add :: "Time \<Rightarrow> int \<Rightarrow> Time" where
  "Time_Add t d = t\<lparr>unix := unix t + d\<rparr>"

definition Time_After :: "Time \<Rightarrow> Time \<Rightarrow> bool" where
  "Time_After t u \<longleftrightarrow> unix u < unix t"

definition zeroTime :: Time where
  "zeroTime = \<lparr>unix = - 62135596800, zone = 0\<rparr>"

definition Time_IsZero :: "Time \<Rightarrow> bool" where
  "Time_IsZero t \<longleftrightarrow> unix t = - 62135596800"

text \<open>
  \<^verbatim>\<open>t.AddDate(years, months, days)\<close> is \<^verbatim>\<open>Date(year+years, month+months, day+days, hour,
  min, sec, nsec, loc)\<close> on the date and the clock of \<open>t\<close>; the location keeps its
  offset.
\<close>

definition Time_AddDate :: "Time \<Rightarrow> int \<Rightarrow> int \<Rightarrow> int \<Rightarrow> Time" where
  "Time_AddDate t years months days =
     (let (year, month, day) = Time_Date t;
          clock = (unix t + zone t) mod 86400
      in \<lparr>unix = unix (Date_UTC (year + years) (month + months) (day + days)) + clock - zone t,
          zone = zone t\<rparr>)"

text \<open>Go compares strings byte by byte.\<close>

fun string_le :: "string \<Rightarrow> string \<Rightarrow> bool" where
  "string_le [] ys = True"
| "string_le (x # xs) [] = False"
| "string_le (x # xs) (y # ys) =
     ((of_char x :: nat) < of_char y \<or> (x = y \<and> string_le xs ys))"

section \<open>Data model\<close>

text \<open>
  \<^verbatim>\<open>thanos.MetricDataResult\<close> is declared in the package \<^verbatim>\<open>pkg/thanos-client\<close>; the usecase
  reads \<^verbatim>\<open>Metric.Name\<close>, \<^verbatim>\<open>Metric.TacoCluster\<close>, the instant sample \<^verbatim>\<open>Value\<close>
  (a timestamp and the value as a string) and the range samples \<^verbatim>\<open>Values\<close>.
  A timestamp is a \<^verbatim>\<open>float64\<close>; every finite one is a rational number.
\<close>

record Metric =
  Name :: string
  TacoCluster :: string

record MetricDataResult =
  Metric :: Metric
  Value :: "rat \<times> string"
  Values :: "(rat \<times> string) list"

datatype error =
    External string
  | Wrap error string
  | Errorf string
  | InternalServerError error string

record Organization =
  PrimaryClusterId :: string

record ServicePort =
  TargetPort_StrVal :: string
  Port :: int

record LoadBalancerIngress =
  Hostname :: string

record Service =
  Spec_Type :: string
  Spec_Ports :: "ServicePort list"
  Status_LoadBalancer_Ingress :: "LoadBalancerIngress list"

text \<open>
  Of \<^verbatim>\<open>domain.Cluster\<close> the usecase reads the identifier, the name and the status; of
  the status only whether it is \<^verbatim>\<open>ClusterStatus_DELETED\<close>. An application group is
  only handed on to \<^verbatim>\<open>reflectClusterToStack\<close>.
\<close>

datatype ClusterStatus = ClusterStatus_DELETED | ClusterStatus_other nat

record Cluster =
  ID :: string
  Name :: string
  Status :: ClusterStatus

type_synonym AppGroup = string

text \<open>
  Of \<^verbatim>\<open>domain.DashboardStack\<close>: the identifier, the status, which \<^verbatim>\<open>GetStacks\<close> sorts by,
  and the three fields it writes.
\<close>

record DashboardStack =
  ID :: string
  Status :: string
  Cpu :: string
  Memory :: string
  Storage :: string

text \<open>An alert is read for the time of its creation only.\<close>

record Alert =
  CreatedAt :: Time

record Unit =
  Name :: string
  Data :: "string list"

record ChartData =
  XAxis_Data :: "string list"
  Series :: "Unit list"

text \<open>
  \<^verbatim>\<open>domain.DashboardChart\<close>. The chart type is kept as its string
  (\<^verbatim>\<open>new(domain.ChartType).FromString(chartType)\<close> is not part of the usecase).
\<close>

record DashboardChart =
  ChartType :: string
  OrganizationId :: string
  Name :: string
  Description :: string
  Duration :: string
  Interval :: string
  Year :: string
  Month :: string
  ChartData :: ChartData
  UpdatedAt :: Time

subsection \<open>The collaborators and the shared cache\<close>

text \<open>
  The repositories, the Kubernetes client and the Thanos client are outside the
  usecase: each is a function from the request to an error or a result. A Kubernetes
  clientset and a Thanos client are handles (numbers). \<open>thanos_New\<close> stands for
  \<^verbatim>\<open>helper.SplitAddress\<close> followed by \<^verbatim>\<open>thanos.New\<close>, and
  \<open>reflectClusterToStack_Map\<close> for \<^verbatim>\<open>reflectClusterToStack\<close> followed by \<^verbatim>\<open>domain.Map\<close>
  into a fresh \<^verbatim>\<open>DashboardStack\<close>. \<open>StackStatus_RUNNING\<close> is the string
  \<^verbatim>\<open>domain.StackStatus_RUNNING.String()\<close>, and \<open>ChartType_CPU\<close> to
  \<open>ChartType_POD_CALENDAR\<close> are the strings of the chart types. \<open>local_offset\<close> gives
  the offset of the local time zone at an instant: \<^verbatim>\<open>time.Now()\<close> is a local time.

  Two library functions are taken from the environment as well.
  \<open>strconv_ParseFloat32 s\<close> is \<^verbatim>\<open>strconv.ParseFloat(s, 32)\<close>: an error, or the value
  when the error is nil. \<open>xorshift_Next r\<close> is the state of the pseudo-random generator of
  package \<^verbatim>\<open>sort\<close> after one \<^verbatim>\<open>Next()\<close> from the state \<open>r\<close>.

  The cache is \<^verbatim>\<open>go-cache\<close>: an item carries its expiration time (0 when it never
  expires); \<^verbatim>\<open>Get\<close> does not find an item whose expiration lies before the current time,
  and \<^verbatim>\<open>Set\<close> with \<^verbatim>\<open>DefaultExpiration\<close> stores the current time plus the cache's default
  expiration when that is positive. Times are nanoseconds. Every lookup that
  \<^verbatim>\<open>getThanosUrl\<close> makes outside the process is recorded in \<open>lookups\<close> and takes the
  time \<open>elapsed\<close> gives it.
\<close>

datatype lookup =
    OrganizationGet string
  | GetClientFromClusterId string
  | ServicesGet nat string string
  | ClusterGet string

record env =
  organizationRepo_Get :: "string \<Rightarrow> error + Organization"
  kubernetes_GetClientFromClusterId :: "string \<Rightarrow> error + nat"
  Services_Get :: "nat \<Rightarrow> string \<Rightarrow> string \<Rightarrow> error + Service"
  clusterRepo_FetchByOrganizationId :: "string \<Rightarrow> error + Cluster list"
  clusterRepo_Get :: "string \<Rightarrow> error + Cluster"
  alertRepo_FetchPodRestart :: "string \<Rightarrow> Time \<Rightarrow> Time \<Rightarrow> error + Alert list"
  appGroupRepo_Fetch :: "string \<Rightarrow> error + AppGroup list"
  reflectClusterToStack_Map :: "Cluster \<Rightarrow> AppGroup list \<Rightarrow> DashboardStack"
  StackStatus_RUNNING :: string
  thanos_New :: "string \<Rightarrow> error + nat"
  thanos_Get :: "nat \<Rightarrow> string \<Rightarrow> error + MetricDataResult list"
  thanos_FetchRange :: "nat \<Rightarrow> string \<Rightarrow> int \<Rightarrow> int \<Rightarrow> int \<Rightarrow> error + MetricDataResult list"
  ChartType_CPU :: string
  ChartType_MEMORY :: string
  ChartType_POD :: string
  ChartType_TRAFFIC :: string
  ChartType_POD_CALENDAR :: string
  local_offset :: "int \<Rightarrow> int"
  strconv_ParseFloat32 :: "string \<Rightarrow> num_error + gofloat"
  xorshift_Next :: "nat \<Rightarrow> nat"
  cache_defaultExpiration :: int
  elapsed :: "lookup \<Rightarrow> int"

record state =
  cache_items :: "string \<rightharpoonup> string \<times> int"
  clock :: int
  lookups :: "lookup list"

definition cache_Get :: "state \<Rightarrow> string \<Rightarrow> string option" where
  "cache_Get st k =
     (case cache_items st k of
        None \<Rightarrow> None
      | Some (x, e) \<Rightarrow> if e > 0 \<and> clock st > e then None else Some x)"

definition cache_Set :: "env \<Rightarrow> string \<Rightarrow> string \<Rightarrow> state \<Rightarrow> state" where
  "cache_Set env k x st =
     st\<lparr>cache_items := (cache_items st)
           (k \<mapsto> (x, if cache_defaultExpiration env > 0
                      then clock st + cache_defaultExpiration env else 0))\<rparr>"

definition perform :: "env \<Rightarrow> lookup \<Rightarrow> state \<Rightarrow> state" where
  "perform env l st = st\<lparr>clock := clock st + elapsed env l, lookups := lookups st @ [l]\<rparr>"

definition time_Now :: "env \<Rightarrow> state \<Rightarrow> Time" where
  "time_Now env st =
     \<lparr>unix = clock st div 1000000000, zone = local_offset env (clock st div 1000000000)\<rparr>"

section \<open>getThanosUrl\<close>

definition prefix_THANOS_URL :: string where
  "prefix_THANOS_URL = ''CACHE_KEY_THANOS_URL''"

text \<open>
  The end of \<^verbatim>\<open>getThanosUrl\<close>, from the check of the service type on: both the primary
  service and the fallback service reach it.
\<close>

definition getThanosUrl_service ::
  "env \<Rightarrow> string \<Rightarrow> Service \<Rightarrow> state \<Rightarrow> (error + string) \<times> state" where
  "getThanosUrl_service env organizationId service st =
     (if Spec_Type service \<noteq> ''LoadBalancer''
      then (Inl (Errorf (''Service type is not LoadBalancer. ['' @ Spec_Type service @ ''] '')), st)
      else
        (case (Status_LoadBalancer_Ingress service, Spec_Ports service) of
           (lb # _, p # _) \<Rightarrow>
             (let out = TargetPort_StrVal p @ ''://'' @ Hostname lb @ '':'' @ Itoa (Port p)
              in (Inr out, cache_Set env (prefix_THANOS_URL @ organizationId) out st))
         | _ \<Rightarrow> (Inr [], st)))"

definition getThanosUrl :: "env \<Rightarrow> string \<Rightarrow> state \<Rightarrow> (error + string) \<times> state" where
  "getThanosUrl env organizationId st =
     (case cache_Get st (prefix_THANOS_URL @ organizationId) of
        Some v \<Rightarrow> (Inr v, st)
      | None \<Rightarrow>
          (let st1 = perform env (OrganizationGet organizationId) st in
           case organizationRepo_Get env organizationId of
             Inl err \<Rightarrow> (Inl (Wrap err ''Failed to get organization''), st1)
           | Inr organization \<Rightarrow>
               if PrimaryClusterId organization = []
               then (Inl (Errorf ''Invalid primary clusterId''), st1)
               else
                 (let st2 = perform env (GetClientFromClusterId (PrimaryClusterId organization)) st1 in
                  case kubernetes_GetClientFromClusterId env (PrimaryClusterId organization) of
                    Inl err \<Rightarrow> (Inl (Wrap err ''Failed to get client set for user cluster''), st2)
                  | Inr clientset_user \<Rightarrow>
                      (let st3 = perform env (ServicesGet clientset_user ''lma'' ''thanos-query-frontend'') st2 in
                       case Services_Get env clientset_user ''lma'' ''thanos-query-frontend'' of
                         Inr service \<Rightarrow> getThanosUrl_service env organizationId service st3
                       | Inl _ \<Rightarrow>
                           (let st4 = perform env (ServicesGet clientset_user ''lma'' ''thanos-query'') st3 in
                            case Services_Get env clientset_user ''lma'' ''thanos-query'' of
                              Inl err \<Rightarrow> (Inl (Wrap err ''Failed to get services.''), st4)
                            | Inr service \<Rightarrow> getThanosUrl_service env organizationId service st4)))))"

section \<open>GetResources\<close>

record DashboardResource =
  Stack :: string
  Cpu :: string
  Memory :: string
  Storage :: string

text \<open>The Korean counter word of the format strings \<^verbatim>\<open>"%d \<dots>"\<close>, as its three UTF-8 bytes.\<close>

definition gae :: string where
  "gae = [CHR 0xEA, CHR 0xB0, CHR 0x9C]"

fun GetResources_cpu_loop :: "int \<Rightarrow> MetricDataResult list \<Rightarrow> int" where
  "GetResources_cpu_loop cpu [] = cpu"
| "GetResources_cpu_loop cpu (val # rest) =
     (case Atoi (snd (Value val)) of
        (cpuVal, Some err) \<Rightarrow> GetResources_cpu_loop cpu rest
      | (cpuVal, None) \<Rightarrow>
          GetResources_cpu_loop (if cpuVal > 0 then wrap64 (cpu + cpuVal) else cpu) rest)"

text \<open>The loops for the memory and for the storage have the same body.\<close>

fun GetResources_bytes_loop :: "int \<Rightarrow> MetricDataResult list \<Rightarrow> int" where
  "GetResources_bytes_loop memory [] = memory"
| "GetResources_bytes_loop memory (val # rest) =
     (case Atoi (snd (Value val)) of
        (memoryVal, Some err) \<Rightarrow> GetResources_bytes_loop memory rest
      | (memoryVal, None) \<Rightarrow>
          GetResources_bytes_loop
            (if memoryVal > 0
             then wrap64 (memory + quo (quo (quo memoryVal 1024) 1024) 1024)
             else memory) rest)"

definition GetResources ::
  "env \<Rightarrow> string \<Rightarrow> state \<Rightarrow> (error + DashboardResource) \<times> state" where
  "GetResources env organizationId st =
     (case getThanosUrl env organizationId st of
        (Inl err, st') \<Rightarrow> (Inl (InternalServerError err ''D_INVALID_PRIMARY_STACK''), st')
      | (Inr thanosUrl, st') \<Rightarrow>
          (case thanos_New env thanosUrl of
             Inl err \<Rightarrow> (Inl (Wrap err ''failed to create thanos client''), st')
           | Inr thanosClient \<Rightarrow>
               (case clusterRepo_FetchByOrganizationId env organizationId of
                  Inl err \<Rightarrow> (Inl err, st')
                | Inr clusters \<Rightarrow>
                    (let filteredClusters = filter (\<lambda>x. Cluster.Status x \<noteq> ClusterStatus_DELETED) clusters;
                         stack = Itoa (int (length filteredClusters)) @ '' '' @ gae
                     in case thanos_Get env thanosClient ''sum by (taco_cluster) (machine_cpu_cores)'' of
                          Inl err \<Rightarrow> (Inl err, st')
                        | Inr result \<Rightarrow>
                            (let cpu = GetResources_cpu_loop 0 result
                             in case thanos_Get env thanosClient ''sum by (taco_cluster) (machine_memory_bytes)'' of
                                  Inl err \<Rightarrow> (Inl err, st')
                                | Inr result \<Rightarrow>
                                    (let memory = GetResources_bytes_loop 0 result
                                     in case thanos_Get env thanosClient
                                               ''sum by (taco_cluster) (kubelet_volume_stats_capacity_bytes)'' of
                                          Inl err \<Rightarrow> (Inl err, st')
                                        | Inr result \<Rightarrow>
                                            (let storage = GetResources_bytes_loop 0 result
                                             in (Inr \<lparr>Stack = stack,
                                                      Cpu = Itoa cpu @ '' '' @ gae,
                                                      Memory = Itoa memory @ '' GB'',
                                                      Storage = Itoa storage @ '' GB''\<rparr>, st'))))))))"

text \<open>
  The values a total counts: those of the samples that \<^verbatim>\<open>Atoi\<close> accepts and that are
  not negative, in the order of the result set.
\<close>

definition counted :: "MetricDataResult list \<Rightarrow> int list" where
  "counted rs =
     map fst (filter (\<lambda>(v, e). e = None \<and> 0 \<le> v) (map (\<lambda>r. Atoi (snd (Value r))) rs))"


section \<open>The utilization of a stack\<close>

text \<open>
  The loop of \<^verbatim>\<open>getStackMemoryDisk\<close> over the result set. It has no \<^verbatim>\<open>break\<close>: every
  sample of the cluster is read, and a later sample of a metric overwrites the value
  of an earlier one. The error of \<^verbatim>\<open>Atoi\<close> is dropped.
\<close>

fun getStackMemoryDisk_loop ::
  "string \<Rightarrow> int \<times> int \<times> int \<times> int \<Rightarrow> MetricDataResult list \<Rightarrow> int \<times> int \<times> int \<times> int" where
  "getStackMemoryDisk_loop clusterId (free, machine, used, capacity) [] =
     (free, machine, used, capacity)"
| "getStackMemoryDisk_loop clusterId (free, machine, used, capacity) (val # rest) =
     (if TacoCluster (Metric val) = clusterId
      then
        (let (free, machine) =
               (if Metric.Name (Metric val) = ''node_memory_MemFree_bytes''
                then (fst (Atoi (snd (Value val))), machine)
                else if Metric.Name (Metric val) = ''machine_memory_bytes''
                then (free, fst (Atoi (snd (Value val))))
                else (free, machine));
             (used, capacity) =
               (if Metric.Name (Metric val) = ''kubelet_volume_stats_used_bytes''
                then (fst (Atoi (snd (Value val))), capacity)
                else if Metric.Name (Metric val) = ''kubelet_volume_stats_capacity_bytes''
                then (used, fst (Atoi (snd (Value val))))
                else (used, capacity))
         in getStackMemoryDisk_loop clusterId (free, machine, used, capacity) rest)
      else getStackMemoryDisk_loop clusterId (free, machine, used, capacity) rest)"

text \<open>
  \<^verbatim>\<open>m := 1 - (float32(free) / float32(machine))\<close> and \<^verbatim>\<open>fmt.Sprintf("%0.2f", m*100)\<close>;
  \<^verbatim>\<open>d := float32(used) / float32(capacity)\<close> and \<^verbatim>\<open>fmt.Sprintf("%0.2f", d*100)\<close>. Every
  operation is one of \<^verbatim>\<open>float32\<close>.
\<close>

definition memory_percent :: "int \<Rightarrow> int \<Rightarrow> gofloat" where
  "memory_percent free machine =
     f_mul binary32
       (f_sub binary32 (float32 1) (f_quo binary32 (float32 free) (float32 machine)))
       (float32 100)"

definition disk_percent :: "int \<Rightarrow> int \<Rightarrow> gofloat" where
  "disk_percent used capacity =
     f_mul binary32 (f_quo binary32 (float32 used) (float32 capacity)) (float32 100)"

definition getStackMemoryDisk :: "MetricDataResult list \<Rightarrow> string \<Rightarrow> string \<times> string" where
  "getStackMemoryDisk result clusterId =
     (let (free, machine, used, capacity) = getStackMemoryDisk_loop clusterId (0, 0, 0, 0) result;
          memory = (if machine > 0 then Sprintf_f 2 (memory_percent free machine) else []);
          disk = (if capacity > 0 then Sprintf_f 2 (disk_percent used capacity) else [])
      in (memory, disk))"

fun getStackCpu :: "env \<Rightarrow> MetricDataResult list \<Rightarrow> string \<Rightarrow> string" where
  "getStackCpu env [] clusterId = []"
| "getStackCpu env (val # rest) clusterId =
     (if TacoCluster (Metric val) = clusterId
      then (case strconv_ParseFloat32 env (snd (Value val)) of
              Inr s \<Rightarrow> Sprintf_f 2 s
            | Inl err \<Rightarrow> [])
      else getStackCpu env rest clusterId)"

section \<open>GetStacks\<close>

subsection \<open>sort.Slice\<close>

text \<open>
  \<^verbatim>\<open>sort.Slice(x, less)\<close> of the Go library (Go 1.19 and later) calls
  \<^verbatim>\<open>pdqsort_func(lessSwap{less, swap}, 0, length, bits.Len(uint(length)))\<close>. The functions
  of \<^verbatim>\<open>zsortfunc.go\<close> follow, each under its name. They reach the slice only through
  \<^verbatim>\<open>data.Less(i, j)\<close> and \<^verbatim>\<open>data.Swap(i, j)\<close>; \<^verbatim>\<open>less\<close> is a closure over the slice, so it
  reads the elements where they are at the time of the call, and here it is a function
  of the current list and the two indices. Every index that the library computes for a
  range \<open>a \<le> b \<le> len\<close> lies in the slice, so the indices are natural numbers. The
  library documents that the sort is not stable.
\<close>

definition swap :: "'a list \<Rightarrow> nat \<Rightarrow> nat \<Rightarrow> 'a list" where
  "swap xs i j = xs[i := xs ! j, j := xs ! i]"

text \<open>
  \<^verbatim>\<open>insertionSort_func(data, a, b)\<close>:
  \<^verbatim>\<open>for i := a + 1; i < b; i++ { for j := i; j > a && data.Less(j, j-1); j-- { data.Swap(j, j-1) } }\<close>.
\<close>

fun insertionSort_inner ::
  "('a list \<Rightarrow> nat \<Rightarrow> nat \<Rightarrow> bool) \<Rightarrow> nat \<Rightarrow> nat \<Rightarrow> 'a list \<Rightarrow> 'a list" where
  "insertionSort_inner lessFn a j xs =
     (if j > a \<and> lessFn xs j (j - 1)
      then insertionSort_inner lessFn a (j - 1) (swap xs j (j - 1))
      else xs)"

declare insertionSort_inner.simps [simp del]

function insertionSort_outer ::
  "('a list \<Rightarrow> nat \<Rightarrow> nat \<Rightarrow> bool) \<Rightarrow> nat \<Rightarrow> nat \<Rightarrow> nat \<Rightarrow> 'a list \<Rightarrow> 'a list" where
  "insertionSort_outer lessFn a b i xs =
     (if i < b
      then insertionSort_outer lessFn a b (i + 1) (insertionSort_inner lessFn a i xs)
      else xs)"
  by pat_completeness auto
termination
  by (relation "measure (\<lambda>(lessFn, a, b, i, xs). b - i)") auto

declare insertionSort_outer.simps [simp del]

definition insertionSort_func ::
  "('a list \<Rightarrow> nat \<Rightarrow> nat \<Rightarrow> bool) \<Rightarrow> nat \<Rightarrow> nat \<Rightarrow> 'a list \<Rightarrow> 'a list" where
  "insertionSort_func lessFn a b xs = insertionSort_outer lessFn a b (a + 1) xs"

text \<open>
  \<^verbatim>\<open>siftDown_func(data, lo, hi, first)\<close>; the loop variable \<^verbatim>\<open>root\<close> (here \<open>root'\<close>) starts at \<open>lo\<close>, and
  an iteration that does not return goes on with \<^verbatim>\<open>root = child\<close>.
\<close>

function siftDown_func ::
  "('a list \<Rightarrow> nat \<Rightarrow> nat \<Rightarrow> bool) \<Rightarrow> nat \<Rightarrow> nat \<Rightarrow> nat \<Rightarrow> 'a list \<Rightarrow> 'a list" where
  "siftDown_func lessFn root' hi first xs =
     (if 2 * root' + 1 \<ge> hi then xs
      else
        (let child = 2 * root' + 1;
             child = (if child + 1 < hi \<and> lessFn xs (first + child) (first + child + 1)
                      then child + 1 else child)
         in if \<not> lessFn xs (first + root') (first + child) then xs
            else siftDown_func lessFn child hi first (swap xs (first + root') (first + child))))"
  by pat_completeness auto
termination
  by (relation "measure (\<lambda>(lessFn, root', hi, first, xs). hi - root')") auto

declare siftDown_func.simps [simp del]

text \<open>
  \<^verbatim>\<open>heapSort_func(data, a, b)\<close>. Both loops count \<^verbatim>\<open>i\<close> down to 0:
  \<open>heapSort_build \<dots> n\<close> runs the body of the first loop for \<open>i = n - 1, \<dots>, 0\<close>, and
  \<open>heapSort_pop \<dots> n\<close> that of the second.
\<close>

fun heapSort_build ::
  "('a list \<Rightarrow> nat \<Rightarrow> nat \<Rightarrow> bool) \<Rightarrow> nat \<Rightarrow> nat \<Rightarrow> nat \<Rightarrow> 'a list \<Rightarrow> 'a list" where
  "heapSort_build lessFn hi first 0 xs = xs"
| "heapSort_build lessFn hi first (Suc i) xs =
     heapSort_build lessFn hi first i (siftDown_func lessFn i hi first xs)"

fun heapSort_pop ::
  "('a list \<Rightarrow> nat \<Rightarrow> nat \<Rightarrow> bool) \<Rightarrow> nat \<Rightarrow> nat \<Rightarrow> 'a list \<Rightarrow> 'a list" where
  "heapSort_pop lessFn first 0 xs = xs"
| "heapSort_pop lessFn first (Suc i) xs =
     heapSort_pop lessFn first i (siftDown_func lessFn 0 i first (swap xs first (first + i)))"

definition heapSort_func ::
  "('a list \<Rightarrow> nat \<Rightarrow> nat \<Rightarrow> bool) \<Rightarrow> nat \<Rightarrow> nat \<Rightarrow> 'a list \<Rightarrow> 'a list" where
  "heapSort_func lessFn a b xs =
     (let first = a; hi = b - a
      in heapSort_pop lessFn first hi
           (heapSort_build lessFn hi first ((hi - 1) div 2 + 1) xs))"

text \<open>
  \<^verbatim>\<open>partition_func(data, a, b, pivot)\<close>. The two inner loops are
  \<^verbatim>\<open>for i <= j && data.Less(i, a) { i++ }\<close> and \<^verbatim>\<open>for i <= j && !data.Less(j, a) { j-- }\<close>;
  \<open>i\<close> is at least \<open>a + 1\<close>, so \<open>j\<close> is positive where it is decremented. The result is
  the slice, the new index of the pivot and \<^verbatim>\<open>alreadyPartitioned\<close>.
\<close>

function partition_left ::
  "('a list \<Rightarrow> nat \<Rightarrow> nat \<Rightarrow> bool) \<Rightarrow> nat \<Rightarrow> 'a list \<Rightarrow> nat \<Rightarrow> nat \<Rightarrow> nat" where
  "partition_left lessFn a xs i j =
     (if i \<le> j \<and> lessFn xs i a then partition_left lessFn a xs (i + 1) j else i)"
  by pat_completeness auto
termination
  by (relation "measure (\<lambda>(lessFn, a, xs, i, j). j + 1 - i)") auto

declare partition_left.simps [simp del]

function partition_right ::
  "('a list \<Rightarrow> nat \<Rightarrow> nat \<Rightarrow> bool) \<Rightarrow> nat \<Rightarrow> 'a list \<Rightarrow> nat \<Rightarrow> nat \<Rightarrow> nat" where
  "partition_right lessFn a xs i j =
     (if i \<le> j \<and> \<not> lessFn xs j a \<and> 0 < j then partition_right lessFn a xs i (j - 1) else j)"
  by pat_completeness auto
termination
  by (relation "measure (\<lambda>(lessFn, a, xs, i, j). j)") auto

declare partition_right.simps [simp del]

function partition_loop ::
  "('a list \<Rightarrow> nat \<Rightarrow> nat \<Rightarrow> bool) \<Rightarrow> nat \<Rightarrow> 'a list \<Rightarrow> nat \<Rightarrow> nat \<Rightarrow> 'a list \<times> nat" where
  "partition_loop lessFn a xs i j =
     (let i = partition_left lessFn a xs i j;
          j = partition_right lessFn a xs i j
      in if i > j then (xs, j)
         else partition_loop lessFn a (swap xs i j) (i + 1) (j - 1))"
  by pat_completeness auto
termination
proof (relation "measure (\<lambda>(lessFn, a, xs, i, j). j + 1 - i)")
  fix lessFn :: "'a list \<Rightarrow> nat \<Rightarrow> nat \<Rightarrow> bool" and a xs i j x xa
  assume x: "x = partition_left lessFn a xs i j"
    and xa: "xa = partition_right lessFn a xs x j" and n: "\<not> xa < x"
  have "i \<le> x" unfolding x
    by (induction lessFn a xs i j rule: partition_left.induct)
       (subst partition_left.simps, auto)
  moreover have "xa \<le> j" unfolding xa
    by (induction lessFn a xs x j rule: partition_right.induct)
       (subst partition_right.simps, auto)
  ultimately show "((lessFn, a, swap xs x xa, x + 1, xa - 1), lessFn, a, xs, i, j)
        \<in> measure (\<lambda>(lessFn, a, xs, i, j). j + 1 - i)"
    using n by simp
qed simp

declare partition_loop.simps [simp del]

definition partition_func ::
  "('a list \<Rightarrow> nat \<Rightarrow> nat \<Rightarrow> bool) \<Rightarrow> nat \<Rightarrow> nat \<Rightarrow> nat \<Rightarrow> 'a list \<Rightarrow> 'a list \<times> nat \<times> bool" where
  "partition_func lessFn a b pivot xs =
     (let xs = swap xs a pivot;
          i = a + 1; j = b - 1;
          i = partition_left lessFn a xs i j;
          j = partition_right lessFn a xs i j
      in if i > j then (swap xs j a, j, True)
         else
           (let xs = swap xs i j;
                (xs, j) = partition_loop lessFn a xs (i + 1) (j - 1)
            in (swap xs j a, j, False)))"

text \<open>
  \<^verbatim>\<open>partitionEqual_func(data, a, b, pivot)\<close>, with the loops
  \<^verbatim>\<open>for i <= j && !data.Less(a, i) { i++ }\<close> and \<^verbatim>\<open>for i <= j && data.Less(a, j) { j-- }\<close>.
\<close>

function partitionEqual_left ::
  "('a list \<Rightarrow> nat \<Rightarrow> nat \<Rightarrow> bool) \<Rightarrow> nat \<Rightarrow> 'a list \<Rightarrow> nat \<Rightarrow> nat \<Rightarrow> nat" where
  "partitionEqual_left lessFn a xs i j =
     (if i \<le> j \<and> \<not> lessFn xs a i then partitionEqual_left lessFn a xs (i + 1) j else i)"
  by pat_completeness auto
termination
  by (relation "measure (\<lambda>(lessFn, a, xs, i, j). j + 1 - i)") auto

declare partitionEqual_left.simps [simp del]

function partitionEqual_right ::
  "('a list \<Rightarrow> nat \<Rightarrow> nat \<Rightarrow> bool) \<Rightarrow> nat \<Rightarrow> 'a list \<Rightarrow> nat \<Rightarrow> nat \<Rightarrow> nat" where
  "partitionEqual_right lessFn a xs i j =
     (if i \<le> j \<and> lessFn xs a j \<and> 0 < j then partitionEqual_right lessFn a xs i (j - 1) else j)"
  by pat_completeness auto
termination
  by (relation "measure (\<lambda>(lessFn, a, xs, i, j). j)") auto

declare partitionEqual_right.simps [simp del]

function partitionEqual_loop ::
  "('a list \<Rightarrow> nat \<Rightarrow> nat \<Rightarrow> bool) \<Rightarrow> nat \<Rightarrow> 'a list \<Rightarrow> nat \<Rightarrow> nat \<Rightarrow> 'a list \<times> nat" where
  "partitionEqual_loop lessFn a xs i j =
     (let i = partitionEqual_left lessFn a xs i j;
          j = partitionEqual_right lessFn a xs i j
      in if i > j then (xs, i)
         else partitionEqual_loop lessFn a (swap xs i j) (i + 1) (j - 1))"
  by pat_completeness auto
termination
proof (relation "measure (\<lambda>(lessFn, a, xs, i, j). j + 1 - i)")
  fix lessFn :: "'a list \<Rightarrow> nat \<Rightarrow> nat \<Rightarrow> bool" and a xs i j x xa
  assume x: "x = partitionEqual_left lessFn a xs i j"
    and xa: "xa = partitionEqual_right lessFn a xs x j" and n: "\<not> xa < x"
  have "i \<le> x" unfolding x
    by (induction lessFn a xs i j rule: partitionEqual_left.induct)
       (subst partitionEqual_left.simps, auto)
  moreover have "xa \<le> j" unfolding xa
    by (induction lessFn a xs x j rule: partitionEqual_right.induct)
       (subst partitionEqual_right.simps, auto)
  ultimately show "((lessFn, a, swap xs x xa, x + 1, xa - 1), lessFn, a, xs, i, j)
        \<in> measure (\<lambda>(lessFn, a, xs, i, j). j + 1 - i)"
    using n by simp
qed simp

declare partitionEqual_loop.simps [simp del]

definition partitionEqual_func ::
  "('a list \<Rightarrow> nat \<Rightarrow> nat \<Rightarrow> bool) \<Rightarrow> nat \<Rightarrow> nat \<Rightarrow> nat \<Rightarrow> 'a list \<Rightarrow> 'a list \<times> nat" where
  "partitionEqual_func lessFn a b pivot xs =
     partitionEqual_loop lessFn a (swap xs a pivot) (a + 1) (b - 1)"

text \<open>
  \<^verbatim>\<open>partialInsertionSort_func(data, a, b)\<close>, with \<^verbatim>\<open>maxSteps = 5\<close> and
  \<^verbatim>\<open>shortestShifting = 50\<close>. \<open>partialInsertionSort_scan\<close> is
  \<^verbatim>\<open>for i < b && !data.Less(i, i-1) { i++ }\<close>, \<open>partialInsertionSort_left\<close> is
  \<^verbatim>\<open>for j := i - 1; j >= 1; j-- { if !data.Less(j, j-1) { break }; data.Swap(j, j-1) }\<close>, and
  \<open>partialInsertionSort_right\<close> is
  \<^verbatim>\<open>for j := i + 1; j < b; j++ { if !data.Less(j, j-1) { break }; data.Swap(j, j-1) }\<close>.
  \<open>partialInsertionSort_loop \<dots> n\<close> runs the steps that remain when \<open>maxSteps - n\<close> are
  done. The result is the slice and whether it is sorted.
\<close>

function partialInsertionSort_scan ::
  "('a list \<Rightarrow> nat \<Rightarrow> nat \<Rightarrow> bool) \<Rightarrow> nat \<Rightarrow> 'a list \<Rightarrow> nat \<Rightarrow> nat" where
  "partialInsertionSort_scan lessFn b xs i =
     (if i < b \<and> \<not> lessFn xs i (i - 1) then partialInsertionSort_scan lessFn b xs (i + 1) else i)"
  by pat_completeness auto
termination
  by (relation "measure (\<lambda>(lessFn, b, xs, i). b - i)") auto

declare partialInsertionSort_scan.simps [simp del]

function partialInsertionSort_left ::
  "('a list \<Rightarrow> nat \<Rightarrow> nat \<Rightarrow> bool) \<Rightarrow> nat \<Rightarrow> 'a list \<Rightarrow> 'a list" where
  "partialInsertionSort_left lessFn j xs =
     (if j \<ge> 1
      then (if \<not> lessFn xs j (j - 1) then xs
            else partialInsertionSort_left lessFn (j - 1) (swap xs j (j - 1)))
      else xs)"
  by pat_completeness auto
termination
  by (relation "measure (\<lambda>(lessFn, j, xs). j)") auto

declare partialInsertionSort_left.simps [simp del]

function partialInsertionSort_right ::
  "('a list \<Rightarrow> nat \<Rightarrow> nat \<Rightarrow> bool) \<Rightarrow> nat \<Rightarrow> nat \<Rightarrow> 'a list \<Rightarrow> 'a list" where
  "partialInsertionSort_right lessFn b j xs =
     (if j < b
      then (if \<not> lessFn xs j (j - 1) then xs
            else partialInsertionSort_right lessFn b (j + 1) (swap xs j (j - 1)))
      else xs)"
  by pat_completeness auto
termination
  by (relation "measure (\<lambda>(lessFn, b, j, xs). b - j)") auto

declare partialInsertionSort_right.simps [simp del]

fun partialInsertionSort_loop ::
  "('a list \<Rightarrow> nat \<Rightarrow> nat \<Rightarrow> bool) \<Rightarrow> nat \<Rightarrow> nat \<Rightarrow> nat \<Rightarrow> nat \<Rightarrow> 'a list \<Rightarrow> 'a list \<times> bool" where
  "partialInsertionSort_loop lessFn a b 0 i xs = (xs, False)"
| "partialInsertionSort_loop lessFn a b (Suc n) i xs =
     (let i = partialInsertionSort_scan lessFn b xs i
      in if i = b then (xs, True)
         else if b - a < 50 then (xs, False)
         else
           (let xs = swap xs i (i - 1);
                xs = (if i - a \<ge> 2 then partialInsertionSort_left lessFn (i - 1) xs else xs);
                xs = (if b - i \<ge> 2 then partialInsertionSort_right lessFn b (i + 1) xs else xs)
            in partialInsertionSort_loop lessFn a b n i xs))"

definition partialInsertionSort_func ::
  "('a list \<Rightarrow> nat \<Rightarrow> nat \<Rightarrow> bool) \<Rightarrow> nat \<Rightarrow> nat \<Rightarrow> 'a list \<Rightarrow> 'a list \<times> bool" where
  "partialInsertionSort_func lessFn a b xs = partialInsertionSort_loop lessFn a b 5 (a + 1) xs"

text \<open>
  \<^verbatim>\<open>breakPatterns_func(data, a, b)\<close>. \<^verbatim>\<open>nextPowerOfTwo(length)\<close> is
  \<^verbatim>\<open>1 << bits.Len(uint(length))\<close>. The generator \<^verbatim>\<open>xorshift\<close> is seeded with the length; the
  step \<^verbatim>\<open>random.Next()\<close> on its 64-bit state is taken from the environment
  (\<open>xorshift_Next\<close>), since its shift amounts are not the same in every release of the
  library.
\<close>

definition nextPowerOfTwo :: "nat \<Rightarrow> nat" where
  "nextPowerOfTwo len = 2 ^ bitlen_nat len"

function breakPatterns_loop ::
  "env \<Rightarrow> nat \<Rightarrow> nat \<Rightarrow> nat \<Rightarrow> nat \<Rightarrow> nat \<Rightarrow> nat \<Rightarrow> 'a list \<Rightarrow> 'a list" where
  "breakPatterns_loop env a len modulus idx i random xs =
     (if i < 3
      then
        (let random = xorshift_Next env random;
             other = random AND (modulus - 1);
             other = (if other \<ge> len then other - len else other)
         in breakPatterns_loop env a len modulus idx (i + 1) random
              (swap xs (idx - 1 + i) (a + other)))
      else xs)"
  by pat_completeness auto
termination
  by (relation "measure (\<lambda>(env, a, len, modulus, idx, i, random, xs). 3 - i)") auto

declare breakPatterns_loop.simps [simp del]

definition breakPatterns_func :: "env \<Rightarrow> nat \<Rightarrow> nat \<Rightarrow> 'a list \<Rightarrow> 'a list" where
  "breakPatterns_func env a b xs =
     (let len = b - a
      in if len \<ge> 8
         then
           (let random = len;
                modulus = nextPowerOfTwo len;
                idx = a + (len div 4) * 2 - 1
            in breakPatterns_loop env a len modulus idx 0 random xs)
         else xs)"

text \<open>
  \<^verbatim>\<open>choosePivot_func(data, a, b)\<close> with \<^verbatim>\<open>order2_func\<close>, \<^verbatim>\<open>median_func\<close> and
  \<^verbatim>\<open>medianAdjacent_func\<close>; the counter \<^verbatim>\<open>*swaps\<close> is passed and returned.
  \<^verbatim>\<open>shortestNinther = 50\<close> and \<^verbatim>\<open>maxSwaps = 4 * 3\<close>.
\<close>

datatype sortedHint = unknownHint | increasingHint | decreasingHint

definition order2_func ::
  "('a list \<Rightarrow> nat \<Rightarrow> nat \<Rightarrow> bool) \<Rightarrow> 'a list \<Rightarrow> nat \<Rightarrow> nat \<Rightarrow> nat \<Rightarrow> nat \<times> nat \<times> nat" where
  "order2_func lessFn xs a b swaps =
     (if lessFn xs b a then (b, a, swaps + 1) else (a, b, swaps))"

definition median_func ::
  "('a list \<Rightarrow> nat \<Rightarrow> nat \<Rightarrow> bool) \<Rightarrow> 'a list \<Rightarrow> nat \<Rightarrow> nat \<Rightarrow> nat \<Rightarrow> nat \<Rightarrow> nat \<times> nat" where
  "median_func lessFn xs a b c swaps =
     (let (a, b, swaps) = order2_func lessFn xs a b swaps;
          (b, c, swaps) = order2_func lessFn xs b c swaps;
          (a, b, swaps) = order2_func lessFn xs a b swaps
      in (b, swaps))"

definition medianAdjacent_func ::
  "('a list \<Rightarrow> nat \<Rightarrow> nat \<Rightarrow> bool) \<Rightarrow> 'a list \<Rightarrow> nat \<Rightarrow> nat \<Rightarrow> nat \<times> nat" where
  "medianAdjacent_func lessFn xs a swaps = median_func lessFn xs (a - 1) a (a + 1) swaps"

definition choosePivot_func ::
  "('a list \<Rightarrow> nat \<Rightarrow> nat \<Rightarrow> bool) \<Rightarrow> 'a list \<Rightarrow> nat \<Rightarrow> nat \<Rightarrow> nat \<times> sortedHint" where
  "choosePivot_func lessFn xs a b =
     (let l = b - a;
          swaps = 0;
          i = a + l div 4 * 1;
          j = a + l div 4 * 2;
          k = a + l div 4 * 3;
          (j, swaps) =
            (if l \<ge> 8
             then
               (let (i, j, k, swaps) =
                      (if l \<ge> 50
                       then
                         (let (i, swaps) = medianAdjacent_func lessFn xs i swaps;
                              (j, swaps) = medianAdjacent_func lessFn xs j swaps;
                              (k, swaps) = medianAdjacent_func lessFn xs k swaps
                          in (i, j, k, swaps))
                       else (i, j, k, swaps))
                in median_func lessFn xs i j k swaps)
             else (j, swaps))
      in if swaps = 0 then (j, increasingHint)
         else if swaps = 12 then (j, decreasingHint)
         else (j, unknownHint))"

text \<open>\<^verbatim>\<open>reverseRange_func(data, a, b)\<close>.\<close>

function reverseRange_loop :: "nat \<Rightarrow> nat \<Rightarrow> 'a list \<Rightarrow> 'a list" where
  "reverseRange_loop i j xs =
     (if i < j then reverseRange_loop (i + 1) (j - 1) (swap xs i j) else xs)"
  by pat_completeness auto
termination
  by (relation "measure (\<lambda>(i, j, xs). j - i)") auto

declare reverseRange_loop.simps [simp del]

definition reverseRange_func :: "nat \<Rightarrow> nat \<Rightarrow> 'a list \<Rightarrow> 'a list" where
  "reverseRange_func a b xs = reverseRange_loop a (b - 1) xs"

text \<open>
  \<^verbatim>\<open>pdqsort_func(data, a, b, limit)\<close> with \<^verbatim>\<open>maxInsertion = 12\<close>. Its loop carries
  \<^verbatim>\<open>wasBalanced\<close> and \<^verbatim>\<open>wasPartitioned\<close>, which are both true when the function is
  entered; \<^verbatim>\<open>continue\<close> and the end of the loop body are the calls in tail position.
  \<open>pdqsort_pivot\<close> is the part of the loop body from \<^verbatim>\<open>breakPatterns_func\<close> to
  \<^verbatim>\<open>partialInsertionSort_func\<close>: it gives the slice, the limit, the pivot and whether the
  function returns because the slice is sorted.
\<close>

definition pdqsort_pivot ::
  "env \<Rightarrow> ('a list \<Rightarrow> nat \<Rightarrow> nat \<Rightarrow> bool) \<Rightarrow> nat \<Rightarrow> nat \<Rightarrow> nat \<Rightarrow> bool \<Rightarrow> bool \<Rightarrow> 'a list \<Rightarrow>
   'a list \<times> nat \<times> nat \<times> bool" where
  "pdqsort_pivot env lessFn a b limit wasBalanced wasPartitioned xs =
     (let (xs, limit) =
            (if \<not> wasBalanced then (breakPatterns_func env a b xs, limit - 1)
             else (xs, limit));
          (pivot, hint) = choosePivot_func lessFn xs a b;
          (xs, pivot, hint) =
            (if hint = decreasingHint
             then (reverseRange_func a b xs, (b - 1) - (pivot - a), increasingHint)
             else (xs, pivot, hint));
          (xs, isSorted) =
            (if wasBalanced \<and> wasPartitioned \<and> hint = increasingHint
             then partialInsertionSort_func lessFn a b xs
             else (xs, False))
      in (xs, limit, pivot, isSorted))"

function pdqsort_loop ::
  "env \<Rightarrow> ('a list \<Rightarrow> nat \<Rightarrow> nat \<Rightarrow> bool) \<Rightarrow> nat \<Rightarrow> nat \<Rightarrow> nat \<Rightarrow> bool \<Rightarrow> bool \<Rightarrow> 'a list \<Rightarrow> 'a list" where
  "pdqsort_loop env lessFn a b limit wasBalanced wasPartitioned xs =
     (let len = b - a
      in if len \<le> 12 then insertionSort_func lessFn a b xs
         else if limit = 0 then heapSort_func lessFn a b xs
         else
           (let (xs, limit, pivot, isSorted) =
                  pdqsort_pivot env lessFn a b limit wasBalanced wasPartitioned xs
            in if isSorted then xs
               else if a > 0 \<and> \<not> lessFn xs (a - 1) pivot
               then
                 (let (xs, mid) = partitionEqual_func lessFn a b pivot xs
                  in pdqsort_loop env lessFn mid b limit wasBalanced wasPartitioned xs)
               else
                 (let (xs, mid, alreadyPartitioned) = partition_func lessFn a b pivot xs;
                      wasPartitioned = alreadyPartitioned;
                      leftLen = mid - a;
                      rightLen = b - mid;
                      balanceThreshold = len div 8
                  in if leftLen < rightLen
                     then pdqsort_loop env lessFn (mid + 1) b limit
                            (leftLen \<ge> balanceThreshold) wasPartitioned
                            (pdqsort_loop env lessFn a mid limit True True xs)
                     else pdqsort_loop env lessFn a mid limit
                            (rightLen \<ge> balanceThreshold) wasPartitioned
                            (pdqsort_loop env lessFn (mid + 1) b limit True True xs))))"
  by pat_completeness auto
termination
proof -
  have right_ge: "c + 1 \<le> i \<Longrightarrow> c \<le> j \<Longrightarrow> c \<le> partition_right lessFn a xs i j"
    for lessFn :: "'a list \<Rightarrow> nat \<Rightarrow> nat \<Rightarrow> bool" and a xs i j c
    by (induction lessFn a xs i j rule: partition_right.induct)
       (subst partition_right.simps, auto)
  have right_le: "partition_right lessFn a xs i j \<le> j"
    for lessFn :: "'a list \<Rightarrow> nat \<Rightarrow> nat \<Rightarrow> bool" and a xs i j
    by (induction lessFn a xs i j rule: partition_right.induct)
       (subst partition_right.simps, auto)
  have left_ge: "i \<le> partition_left lessFn a xs i j"
    for lessFn :: "'a list \<Rightarrow> nat \<Rightarrow> nat \<Rightarrow> bool" and a xs i j
    by (induction lessFn a xs i j rule: partition_left.induct)
       (subst partition_left.simps, auto)
  have loop: "c + 1 \<le> i \<Longrightarrow> c \<le> j \<Longrightarrow>
      c \<le> snd (partition_loop lessFn a xs i j) \<and> snd (partition_loop lessFn a xs i j) \<le> j"
    for lessFn :: "'a list \<Rightarrow> nat \<Rightarrow> nat \<Rightarrow> bool" and a xs i j c
  proof (induction lessFn a xs i j rule: partition_loop.induct)
    case (1 lessFn a xs i j)
    define i' where "i' = partition_left lessFn a xs i j"
    define j' where "j' = partition_right lessFn a xs i' j"
    have i': "c + 1 \<le> i'" using left_ge [of i lessFn a xs j] 1(2) by (simp add: i'_def)
    have j': "c \<le> j'" "j' \<le> j"
      using right_ge [OF i' 1(3), of lessFn a xs] right_le [of lessFn a xs i' j]
      by (simp_all add: j'_def)
    show ?case
    proof (cases "i' > j'")
      case True
      then show ?thesis
        using j' by (subst (1 2) partition_loop.simps) (simp add: i'_def [symmetric] j'_def [symmetric])
    next
      case False
      then have "c + 1 \<le> i' + 1" "c \<le> j' - 1" using i' by simp_all
      from 1(1) [OF i'_def j'_def False this]
      have "c \<le> snd (partition_loop lessFn a (swap xs i' j') (i' + 1) (j' - 1))"
           "snd (partition_loop lessFn a (swap xs i' j') (i' + 1) (j' - 1)) \<le> j"
        using j' by auto
      then show ?thesis
        using False
        by (subst (1 2) partition_loop.simps) (simp add: i'_def [symmetric] j'_def [symmetric])
    qed
  qed
  have mid: "a \<le> mid \<and> mid < b"
    if "(ys, r) = partition_func lessFn a b pivot xs" "(mid, ap) = r" "\<not> b - a \<le> 12"
    for lessFn :: "'a list \<Rightarrow> nat \<Rightarrow> nat \<Rightarrow> bool" and a b pivot xs ys r mid ap
  proof -
    define zs where "zs = swap xs a pivot"
    define i' where "i' = partition_left lessFn a zs (a + 1) (b - 1)"
    define j' where "j' = partition_right lessFn a zs i' (b - 1)"
    have i': "a + 1 \<le> i'" using left_ge [of "a + 1" lessFn a zs "b - 1"] by (simp add: i'_def)
    have j': "a \<le> j'" "j' \<le> b - 1"
      using right_ge [OF i', of "b - 1" lessFn a zs] right_le [of lessFn a zs i' "b - 1"] that(3)
      by (simp_all add: j'_def)
    have m: "mid = fst (snd (partition_func lessFn a b pivot xs))"
      using that(1,2) by (metis fst_conv snd_conv)
    show ?thesis
    proof (cases "i' > j'")
      case True
      then have "mid = j'"
        unfolding m partition_func_def j'_def i'_def zs_def
        by (simp add: Let_def)
      then show ?thesis using j' that(3) by simp
    next
      case False
      then have "a + 1 \<le> i' + 1" "a \<le> j' - 1" using i' by simp_all
      from loop [OF this, of lessFn a "swap zs i' j'"]
      have "a \<le> snd (partition_loop lessFn a (swap zs i' j') (i' + 1) (j' - 1))"
           "snd (partition_loop lessFn a (swap zs i' j') (i' + 1) (j' - 1)) \<le> j' - 1"
        by simp_all
      moreover have "mid = snd (partition_loop lessFn a (swap zs i' j') (i' + 1) (j' - 1))"
        using False unfolding m partition_func_def j'_def i'_def zs_def
        by (simp add: Let_def split: prod.splits)
      ultimately show ?thesis using j' that(3) by simp
    qed
  qed
  have eq_left_ge: "i \<le> partitionEqual_left lessFn a xs i j"
    for lessFn :: "'a list \<Rightarrow> nat \<Rightarrow> nat \<Rightarrow> bool" and a xs i j
    by (induction lessFn a xs i j rule: partitionEqual_left.induct)
       (subst partitionEqual_left.simps, auto)
  have eq_loop: "i \<le> snd (partitionEqual_loop lessFn a xs i j)"
    for lessFn :: "'a list \<Rightarrow> nat \<Rightarrow> nat \<Rightarrow> bool" and a xs i j
  proof (induction lessFn a xs i j rule: partitionEqual_loop.induct)
    case (1 lessFn a xs i j)
    define i' where "i' = partitionEqual_left lessFn a xs i j"
    define j' where "j' = partitionEqual_right lessFn a xs i' j"
    have i': "i \<le> i'" using eq_left_ge [of i lessFn a xs j] by (simp add: i'_def)
    show ?case
    proof (cases "i' > j'")
      case True
      then show ?thesis
        using i' by (subst partitionEqual_loop.simps) (simp add: i'_def [symmetric] j'_def [symmetric])
    next
      case False
      from 1 [OF i'_def j'_def False]
      show ?thesis
        using False i'
        by (subst partitionEqual_loop.simps) (simp add: i'_def [symmetric] j'_def [symmetric])
    qed
  qed
  have eq_mid: "a < mid" if "(ys, mid) = partitionEqual_func lessFn a b pivot xs"
    for lessFn :: "'a list \<Rightarrow> nat \<Rightarrow> nat \<Rightarrow> bool" and a b pivot xs ys mid
  proof -
    have "mid = snd (partitionEqual_func lessFn a b pivot xs)"
      using that by (metis snd_conv)
    then show ?thesis
      using eq_loop [of "a + 1" lessFn a "swap xs a pivot" "b - 1"]
      by (simp add: partitionEqual_func_def)
  qed
  show ?thesis
    apply (relation "measure (\<lambda>(env, lessFn, a, b, limit, wasBalanced, wasPartitioned, xs). b - a)")
         apply simp
    subgoal by simp (drule eq_mid, linarith)
    subgoal by simp (drule mid, assumption, assumption, linarith)
    subgoal by simp (drule mid, assumption, assumption, linarith)
    subgoal by simp (drule mid, assumption, assumption, linarith)
    subgoal by simp (drule mid, assumption, assumption, linarith)
    done
qed

declare pdqsort_loop.simps [simp del]

definition pdqsort_func ::
  "env \<Rightarrow> ('a list \<Rightarrow> nat \<Rightarrow> nat \<Rightarrow> bool) \<Rightarrow> nat \<Rightarrow> nat \<Rightarrow> nat \<Rightarrow> 'a list \<Rightarrow> 'a list" where
  "pdqsort_func env lessFn a b limit xs = pdqsort_loop env lessFn a b limit True True xs"

definition sort_Slice :: "env \<Rightarrow> ('a list \<Rightarrow> nat \<Rightarrow> nat \<Rightarrow> bool) \<Rightarrow> 'a list \<Rightarrow> 'a list" where
  "sort_Slice env lessFn xs =
     (let len = length xs;
          limit = bitlen_nat len
      in pdqsort_func env lessFn 0 len limit xs)"

subsection \<open>The summaries\<close>

definition dq :: string where
  "dq = [CHR 0x22]"

definition query_stackMemoryDisk :: string where
  "query_stackMemoryDisk =
     ''sum by (__name__, taco_cluster) ({__name__=~'' @ dq @
     ''node_memory_MemFree_bytes|machine_memory_bytes|kubelet_volume_stats_used_bytes|kubelet_volume_stats_capacity_bytes'' @
     dq @ ''})''"

definition query_stackCpu :: string where
  "query_stackCpu = ''avg by (taco_cluster) (instance:node_cpu:ratio*100)''"

text \<open>The body of the loop over the clusters, from the utilization on.\<close>

definition stack_utilization ::
  "env \<Rightarrow> MetricDataResult list \<Rightarrow> MetricDataResult list \<Rightarrow> string \<Rightarrow> DashboardStack \<Rightarrow> DashboardStack" where
  "stack_utilization env stackMemoryDisk stackCpu clusterId dashboardStack =
     (let (memory, disk) = getStackMemoryDisk stackMemoryDisk clusterId;
          cpu = getStackCpu env stackCpu clusterId;
          cpu = (if cpu \<noteq> [] then cpu @ '' %'' else cpu);
          memory = (if memory \<noteq> [] then memory @ '' %'' else memory);
          disk = (if disk \<noteq> [] then disk @ '' %'' else disk)
      in dashboardStack\<lparr>DashboardStack.Cpu := cpu, DashboardStack.Memory := memory,
                         DashboardStack.Storage := disk\<rparr>)"

fun GetStacks_loop ::
  "env \<Rightarrow> MetricDataResult list \<Rightarrow> MetricDataResult list \<Rightarrow> DashboardStack list \<Rightarrow>
   Cluster list \<Rightarrow> error + DashboardStack list" where
  "GetStacks_loop env stackMemoryDisk stackCpu out [] = Inr out"
| "GetStacks_loop env stackMemoryDisk stackCpu out (cluster # rest) =
     (case appGroupRepo_Fetch env (Cluster.ID cluster) of
        Inl err \<Rightarrow> Inl err
      | Inr appGroups \<Rightarrow>
          GetStacks_loop env stackMemoryDisk stackCpu
            (out @ [stack_utilization env stackMemoryDisk stackCpu (Cluster.ID cluster)
                      (reflectClusterToStack_Map env cluster appGroups)])
            rest)"

definition less_RUNNING :: "env \<Rightarrow> DashboardStack list \<Rightarrow> nat \<Rightarrow> nat \<Rightarrow> bool" where
  "less_RUNNING env out i j \<longleftrightarrow> DashboardStack.Status (out ! i) = StackStatus_RUNNING env"

definition GetStacks ::
  "env \<Rightarrow> string \<Rightarrow> state \<Rightarrow> (error + DashboardStack list) \<times> state" where
  "GetStacks env organizationId st =
     (case clusterRepo_FetchByOrganizationId env organizationId of
        Inl err \<Rightarrow> (Inl err, st)
      | Inr clusters \<Rightarrow>
          (case getThanosUrl env organizationId st of
             (Inl err, st') \<Rightarrow> (Inl (InternalServerError err ''D_INVALID_PRIMARY_STACK''), st')
           | (Inr thanosUrl, st') \<Rightarrow>
               (case thanos_New env thanosUrl of
                  Inl err \<Rightarrow> (Inl (Wrap err ''failed to create thanos client''), st')
                | Inr thanosClient \<Rightarrow>
                    (case thanos_Get env thanosClient query_stackMemoryDisk of
                       Inl err \<Rightarrow> (Inl err, st')
                     | Inr stackMemoryDisk \<Rightarrow>
                         (case thanos_Get env thanosClient query_stackCpu of
                            Inl err \<Rightarrow> (Inl err, st')
                          | Inr stackCpu \<Rightarrow>
                              (case GetStacks_loop env stackMemoryDisk stackCpu [] clusters of
                                 Inl err \<Rightarrow> (Inl err, st')
                               | Inr out \<Rightarrow>
                                   (Inr (sort_Slice env (less_RUNNING env) out), st')))))))"

section \<open>The charts\<close>

subsection \<open>The aligned cell\<close>

text \<open>
  \<^verbatim>\<open>int(math.Round(x))\<close> of a timestamp: to the nearest integer, halves away from zero.
  A timestamp is within the range of \<^verbatim>\<open>int\<close>.
\<close>

definition go_round :: "rat \<Rightarrow> int" where
  "go_round x = (if 0 \<le> x then \<lfloor>x + 1 / 2\<rfloor> else - \<lfloor>- x + 1 / 2\<rfloor>)"

text \<open>
  \<^verbatim>\<open>getChartYValue\<close>. The value of every sample is parsed before its timestamp is
  compared, and a sample that does not parse ends the scan with the empty string.
  \<^verbatim>\<open>y\<close> is a \<^verbatim>\<open>float64\<close>, so the product with 100 is one of \<^verbatim>\<open>float64\<close>; \<^verbatim>\<open>%f\<close> prints
  six digits after the point.
\<close>

fun getChartYValue :: "env \<Rightarrow> (rat \<times> string) list \<Rightarrow> string \<Rightarrow> bool \<Rightarrow> string" where
  "getChartYValue env [] xData percentage = []"
| "getChartYValue env (vals # rest) xData percentage =
     (let x = go_round (fst vals)
      in case strconv_ParseFloat32 env (snd vals) of
           Inl err \<Rightarrow> []
         | Inr y \<Rightarrow>
             if Itoa x = xData
             then Sprintf_f 6 (if percentage then f_mul binary64 y (Finite False 100) else y)
             else getChartYValue env rest xData percentage)"

subsection \<open>The name of a cluster\<close>

definition prefix_CLUSTER_NAME :: string where
  "prefix_CLUSTER_NAME = ''CACHE_KEY_CLUSTER_NAME_FROM_ID''"

definition getClusterNameFromId :: "env \<Rightarrow> string \<Rightarrow> state \<Rightarrow> (error + string) \<times> state" where
  "getClusterNameFromId env clusterId st =
     (case cache_Get st (prefix_CLUSTER_NAME @ clusterId) of
        Some v \<Rightarrow> (Inr v, st)
      | None \<Rightarrow>
          (let st1 = perform env (ClusterGet clusterId) st in
           case clusterRepo_Get env clusterId of
             Inl err \<Rightarrow> (Inl (Wrap err ''Failed to get cluster''), st1)
           | Inr cluster \<Rightarrow>
               (Inr (Cluster.Name cluster),
                cache_Set env (prefix_CLUSTER_NAME @ clusterId) (Cluster.Name cluster) st1)))"

subsection \<open>The range charts\<close>

text \<open>The x axis: every rounded timestamp once, in the order of its first occurrence.\<close>

fun xAxis_values :: "string list \<Rightarrow> (rat \<times> string) list \<Rightarrow> string list" where
  "xAxis_values xAxisData [] = xAxisData"
| "xAxis_values xAxisData (vals # rest) =
     (let x = go_round (fst vals)
      in xAxis_values (if Itoa x \<in> set xAxisData then xAxisData else xAxisData @ [Itoa x]) rest)"

fun xAxis_result :: "string list \<Rightarrow> MetricDataResult list \<Rightarrow> string list" where
  "xAxis_result xAxisData [] = xAxisData"
| "xAxis_result xAxisData (val # rest) = xAxis_result (xAxis_values xAxisData (Values val)) rest"

text \<open>The series: one per result, named after the cluster, or its identifier when the name is not found.\<close>

fun series_result ::
  "env \<Rightarrow> string \<Rightarrow> string list \<Rightarrow> Unit list \<Rightarrow> MetricDataResult list \<Rightarrow> state \<Rightarrow> Unit list \<times> state" where
  "series_result env chartType xAxisData series [] st = (series, st)"
| "series_result env chartType xAxisData series (val # rest) st =
     (let percentage = (chartType = ChartType_CPU env \<or> chartType = ChartType_MEMORY env);
          yAxisData = map (\<lambda>xAxis. getChartYValue env (Values val) xAxis percentage) xAxisData;
          (r, st') = getClusterNameFromId env (TacoCluster (Metric val)) st;
          clusterName = (case r of Inl err \<Rightarrow> TacoCluster (Metric val) | Inr n \<Rightarrow> n)
      in series_result env chartType xAxisData
           (series @ [\<lparr>Unit.Name = clusterName, Data = yAxisData\<rparr>]) rest st')"

subsection \<open>The calendar of pod restarts\<close>

text \<open>
  \<^verbatim>\<open>rangeDate(start, end)\<close> returns a closure over the two days; the pair is its state.
  A call of the closure gives the zero time once the start is after the end, and
  otherwise the start, which it moves on by a day.
\<close>

definition rangeDate :: "Time \<Rightarrow> Time \<Rightarrow> Time \<times> Time" where
  "rangeDate start endDate =
     (let (y, m, d) = Time_Date start;
          start = Date_UTC y m d;
          (y, m, d) = Time_Date endDate;
          endDate = Date_UTC y m d
      in (start, endDate))"

definition rangeDate_next :: "Time \<times> Time \<Rightarrow> Time \<times> (Time \<times> Time)" where
  "rangeDate_next day =
     (case day of (start, endDate) \<Rightarrow>
        if Time_After start endDate then (zeroTime, (start, endDate))
        else (start, (Time_AddDate start 0 0 1, endDate)))"

fun count_alerts :: "string \<Rightarrow> int \<Rightarrow> Alert list \<Rightarrow> int" where
  "count_alerts baseDate cntPodRestart [] = cntPodRestart"
| "count_alerts baseDate cntPodRestart (alert # rest) =
     count_alerts baseDate
       (if Time_Format (CreatedAt alert) = baseDate then cntPodRestart + 1 else cntPodRestart) rest"

text \<open>
  The loop \<^verbatim>\<open>for day := rangeDate(startDate, endDate); ; { d := day(); if d.IsZero() { break } \<dots> }\<close>.
  It has no bound of its own: the result is \<open>None\<close> when the loop does not end.
\<close>

partial_function (option) calendar_loop ::
  "Time \<Rightarrow> Alert list \<Rightarrow> Time \<times> Time \<Rightarrow> string list \<Rightarrow> string list \<Rightarrow>
   (string list \<times> string list) option" where
  "calendar_loop now alerts day xAxisData yAxisData =
     (case rangeDate_next day of (d, day') \<Rightarrow>
        if Time_IsZero d then Some (xAxisData, yAxisData)
        else
          (let baseDate = Time_Format d;
               cntPodRestartStr =
                 (if string_le baseDate (Time_Format now)
                  then Itoa (count_alerts baseDate 0 alerts) else []);
               dd = Date_UTC (Time_Year d) (Time_Month d) (Time_Day d)
           in calendar_loop now alerts day'
                (xAxisData @ [Itoa (unix dd)]) (yAxisData @ [cntPodRestartStr])))"

definition name_POD_CALENDAR :: string where
  "name_POD_CALENDAR =
     ''POD '' @ [CHR 0xEA, CHR 0xB8, CHR 0xB0, CHR 0xEB, CHR 0x8F, CHR 0x99] @ '' '' @
     [CHR 0xED, CHR 0x98, CHR 0x84, CHR 0xED, CHR 0x99, CHR 0xA9]"

definition description_POD_CALENDAR :: string where
  "description_POD_CALENDAR =
     ''Pod '' @ [CHR 0xEC, CHR 0x9E, CHR 0xAC, CHR 0xEA, CHR 0xB8, CHR 0xB0, CHR 0xEB, CHR 0x8F, CHR 0x99] @
     '' '' @ [CHR 0xEC, CHR 0x88, CHR 0x98] @ '' / '' @ [CHR 0xEC, CHR 0xB4, CHR 0x9D] @ '' Pod '' @
     [CHR 0xEC, CHR 0x88, CHR 0x98]"

definition description_suffix :: string where
  "description_suffix =
     '' '' @ [CHR 0xED, CHR 0x86, CHR 0xB5, CHR 0xEA, CHR 0xB3, CHR 0x84] @ '' '' @
     [CHR 0xEB, CHR 0x8D, CHR 0xB0, CHR 0xEC, CHR 0x9D, CHR 0xB4, CHR 0xED, CHR 0x84, CHR 0xB0]"

text \<open>
  The case \<^verbatim>\<open>ChartType_POD_CALENDAR\<close> of \<^verbatim>\<open>getChartFromPrometheus\<close>. The errors of
  \<^verbatim>\<open>Atoi\<close> are dropped. A loop that does not end returns nothing: the result is then
  \<open>None\<close>.
\<close>

definition podCalendar ::
  "env \<Rightarrow> string \<Rightarrow> string \<Rightarrow> string \<Rightarrow> Time \<Rightarrow> state \<Rightarrow> (error + DashboardChart) option" where
  "podCalendar env organizationId year month now st =
     (let yearInt = fst (Atoi year);
          monthInt = fst (Atoi month);
          startDate = Date_UTC yearInt monthInt 1;
          endDate = Time_Add startDate (3600 * 24 * 30)
      in if Time_Year now < yearInt then Some (Inl (Errorf ''Invalid year''))
         else if Time_Year now = yearInt \<and> Time_Month now < monthInt
         then Some (Inl (Errorf ''Invalid month''))
         else
           (case alertRepo_FetchPodRestart env organizationId startDate endDate of
              Inl err \<Rightarrow> Some (Inl err)
            | Inr alerts \<Rightarrow>
                (case calendar_loop now alerts (rangeDate startDate endDate) [] [] of
                   None \<Rightarrow> None
                 | Some (xAxisData, yAxisData) \<Rightarrow>
                     Some (Inr \<lparr>ChartType = ChartType_POD_CALENDAR env,
                                OrganizationId = organizationId,
                                DashboardChart.Name = name_POD_CALENDAR,
                                Description = description_POD_CALENDAR,
                                Duration = [],
                                Interval = [],
                                Year = year,
                                Month = month,
                                ChartData =
                                  \<lparr>XAxis_Data = xAxisData,
                                    Series = [\<lparr>Unit.Name = ''podRestartCount'', Data = yAxisData\<rparr>]\<rparr>,
                                UpdatedAt = time_Now env st\<rparr>))))"

subsection \<open>getChartFromPrometheus\<close>

definition durationSec_of :: "string \<Rightarrow> int" where
  "durationSec_of duration =
     (if duration = ''1h'' then 60 * 60
      else if duration = ''1d'' then 60 * 60 * 24
      else if duration = ''7d'' then 60 * 60 * 24 * 7
      else if duration = ''30d'' then 60 * 60 * 24 * 30
      else 60 * 60 * 24)"

definition intervalSec_of :: "string \<Rightarrow> int" where
  "intervalSec_of interval =
     (if interval = ''1h'' then 60 * 60
      else if interval = ''1d'' then 60 * 60 * 24
      else if interval = ''7h'' then 60 * 60 * 24 * 7
      else 60 * 60)"

definition query_CPU :: string where
  "query_CPU = ''avg by (taco_cluster) (1-rate(node_cpu_seconds_total{mode='' @ dq @ ''idle'' @ dq @ ''}[1h]))''"

definition query_MEMORY :: string where
  "query_MEMORY = ''avg by (taco_cluster) (sum(node_memory_MemTotal_bytes - node_memory_MemAvailable_bytes) by (taco_cluster) / sum(node_memory_MemTotal_bytes) by (taco_cluster))''"

definition query_POD :: string where
  "query_POD = ''avg by (taco_cluster) (increase(kube_pod_container_status_restarts_total{namespace!='' @ dq @ ''kube-system'' @ dq @ ''}[1h]))''"

definition query_TRAFFIC :: string where
  "query_TRAFFIC = ''avg by (taco_cluster) (rate(container_network_receive_bytes_total[1h]))''"

text \<open>The part after the \<^verbatim>\<open>switch\<close>, for the four chart types with a range query.\<close>

definition rangeChart ::
  "env \<Rightarrow> nat \<Rightarrow> string \<Rightarrow> string \<Rightarrow> string \<Rightarrow> string \<Rightarrow> string \<Rightarrow> Time \<Rightarrow> state \<Rightarrow>
   (error + DashboardChart) \<times> state" where
  "rangeChart env thanosClient organizationId chartType duration interval query now st =
     (case thanos_FetchRange env thanosClient query
             (unix now - durationSec_of duration) (unix now) (intervalSec_of interval) of
        Inl err \<Rightarrow> (Inl err, st)
      | Inr result \<Rightarrow>
          (let xAxisData = xAxis_result [] result;
               (series, st') = series_result env chartType xAxisData [] result st
           in (Inr \<lparr>ChartType = chartType,
                    OrganizationId = organizationId,
                    DashboardChart.Name = chartType,
                    Description = chartType @ description_suffix,
                    Duration = duration,
                    Interval = interval,
                    Year = [],
                    Month = [],
                    ChartData = \<lparr>XAxis_Data = xAxisData, Series = series\<rparr>,
                    UpdatedAt = time_Now env st'\<rparr>, st')))"

definition getChartFromPrometheus ::
  "env \<Rightarrow> string \<Rightarrow> string \<Rightarrow> string \<Rightarrow> string \<Rightarrow> string \<Rightarrow> string \<Rightarrow> state \<Rightarrow>
   ((error + DashboardChart) \<times> state) option" where
  "getChartFromPrometheus env organizationId chartType duration interval year month st =
     (case getThanosUrl env organizationId st of
        (Inl err, st') \<Rightarrow> Some (Inl (InternalServerError err ''D_INVALID_PRIMARY_STACK''), st')
      | (Inr thanosUrl, st') \<Rightarrow>
          (case thanos_New env thanosUrl of
             Inl err \<Rightarrow> Some (Inl (Wrap err ''failed to create thanos client''), st')
           | Inr thanosClient \<Rightarrow>
               (let now = time_Now env st'
                in if chartType = ChartType_CPU env
                   then Some (rangeChart env thanosClient organizationId chartType duration interval
                                query_CPU now st')
                   else if chartType = ChartType_MEMORY env
                   then Some (rangeChart env thanosClient organizationId chartType duration interval
                                query_MEMORY now st')
                   else if chartType = ChartType_POD env
                   then Some (rangeChart env thanosClient organizationId chartType duration interval
                                query_POD now st')
                   else if chartType = ChartType_TRAFFIC env
                   then Some (rangeChart env thanosClient organizationId chartType duration interval
                                query_TRAFFIC now st')
                   else if chartType = ChartType_POD_CALENDAR env
                   then map_option (\<lambda>r. (r, st'))
                          (podCalendar env organizationId year month now st')
                   else Some (Inl (Errorf ''No data''), st'))))"

section \<open>A concrete environment\<close>

text \<open>
  \<^verbatim>\<open>strconv.ParseFloat(s, 32)\<close> on the plain spellings: \<^verbatim>\<open>NaN\<close>, a signed or unsigned
  \<^verbatim>\<open>Inf\<close> or \<^verbatim>\<open>Infinity\<close> (in any case of the letters), and an optional sign followed by
  decimal digits with at most one point and at least one digit. The value is the
  nearest \<^verbatim>\<open>float32\<close>; a number too large for \<^verbatim>\<open>float32\<close> is a range error. The
  spellings with an exponent, in hexadecimal or with underscores are outside this
  function (it reports a syntax error for them); it is used on plain spellings only,
  and every general statement below is about an arbitrary \<open>strconv_ParseFloat32\<close>.
\<close>

fun eq_fold :: "string \<Rightarrow> string \<Rightarrow> bool" where
  "eq_fold [] [] = True"
| "eq_fold (c # cs) (p # ps) =
     ((c = p \<or> (of_char c :: nat) + 32 = of_char p) \<and> eq_fold cs ps)"
| "eq_fold _ _ = False"

fun split_point :: "string \<Rightarrow> string \<times> string" where
  "split_point [] = ([], [])"
| "split_point (c # cs) =
     (if c = CHR ''.'' then ([], cs) else (c # fst (split_point cs), snd (split_point cs)))"

fun digits_val :: "nat \<Rightarrow> string \<Rightarrow> nat option" where
  "digits_val acc [] = Some acc"
| "digits_val acc (c # cs) =
     (case digit_of c of None \<Rightarrow> None | Some d \<Rightarrow> digits_val (acc * 10 + d) cs)"

definition ParseFloat32_plain :: "string \<Rightarrow> num_error + gofloat" where
  "ParseFloat32_plain s =
     (let (neg, signed, body) =
            (case s of
               [] \<Rightarrow> (False, False, s)
             | c # cs \<Rightarrow> if c = CHR ''-'' then (True, True, cs)
                        else if c = CHR ''+'' then (False, True, cs) else (False, False, s))
      in if eq_fold body ''inf'' \<or> eq_fold body ''infinity'' then Inr (Infinite neg)
         else if \<not> signed \<and> eq_fold body ''nan'' then Inr NaN
         else
           (let (ip, fp) = split_point body
            in if ip = [] \<and> fp = [] then Inl ErrSyntax
               else case digits_val 0 (ip @ fp) of
                      None \<Rightarrow> Inl ErrSyntax
                    | Some n \<Rightarrow>
                        (case fl binary32 neg (of_nat n / 10 ^ length fp) of
                           Infinite _ \<Rightarrow> Inl ErrRange
                         | v \<Rightarrow> Inr v)))"

text \<open>
  The generator of the current library:
  \<^verbatim>\<open>*r ^= *r << 13; *r ^= *r >> 7; *r ^= *r << 17\<close> on a \<^verbatim>\<open>uint64\<close>.
\<close>

definition xorshift64 :: "nat \<Rightarrow> nat" where
  "xorshift64 r =
     (let r = r XOR take_bit 64 (push_bit 13 r);
          r = r XOR drop_bit 7 r;
          r = r XOR take_bit 64 (push_bit 17 r)
      in r)"

definition sample :: "string \<Rightarrow> string \<Rightarrow> string \<Rightarrow> MetricDataResult" where
  "sample n c v = \<lparr>Metric = \<lparr>Metric.Name = n, TacoCluster = c\<rparr>, Value = (1683608185, v), Values = []\<rparr>"

definition env_demo :: env where
  "env_demo =
     \<lparr>organizationRepo_Get = (\<lambda>_. Inr \<lparr>PrimaryClusterId = ''c1''\<rparr>),
      kubernetes_GetClientFromClusterId = (\<lambda>_. Inr 0),
      Services_Get = (\<lambda>_ _ _. Inr \<lparr>Spec_Type = ''LoadBalancer'',
                                   Spec_Ports = [\<lparr>TargetPort_StrVal = ''http'', Port = 9090\<rparr>],
                                   Status_LoadBalancer_Ingress = [\<lparr>Hostname = ''thanos.example.com''\<rparr>]\<rparr>),
      clusterRepo_FetchByOrganizationId =
        (\<lambda>_. Inr [\<lparr>Cluster.ID = ''c1'', Cluster.Name = ''one'', Cluster.Status = ClusterStatus_other 0\<rparr>,
                  \<lparr>Cluster.ID = ''c2'', Cluster.Name = ''two'', Cluster.Status = ClusterStatus_DELETED\<rparr>]),
      clusterRepo_Get =
        (\<lambda>i. Inr \<lparr>Cluster.ID = i, Cluster.Name = ''cluster-'' @ i, Cluster.Status = ClusterStatus_other 0\<rparr>),
      alertRepo_FetchPodRestart = (\<lambda>_ _ _. Inr []),
      appGroupRepo_Fetch = (\<lambda>_. Inr []),
      reflectClusterToStack_Map =
        (\<lambda>c _. \<lparr>DashboardStack.ID = Cluster.ID c, DashboardStack.Status = ''RUNNING'',
                  DashboardStack.Cpu = [], DashboardStack.Memory = [], DashboardStack.Storage = []\<rparr>),
      StackStatus_RUNNING = ''RUNNING'',
      thanos_New = (\<lambda>_. Inr 0),
      thanos_Get = (\<lambda>_ q.
         if q = ''sum by (taco_cluster) (machine_cpu_cores)''
         then Inr [sample [] ''c1'' ''32'', sample [] ''c2'' ''12'',
                   sample [] ''c3'' ''-5'', sample [] ''c4'' ''abc'']
         else Inr [sample [] ''c1'' ''3221225471'', sample [] ''c2'' ''3221225471'']),
      thanos_FetchRange = (\<lambda>_ _ _ _ _. Inr []),
      ChartType_CPU = ''CPU'',
      ChartType_MEMORY = ''MEMORY'',
      ChartType_POD = ''POD'',
      ChartType_TRAFFIC = ''TRAFFIC'',
      ChartType_POD_CALENDAR = ''POD_CALENDAR'',
      local_offset = (\<lambda>_. 0),
      strconv_ParseFloat32 = ParseFloat32_plain,
      xorshift_Next = xorshift64,
      cache_defaultExpiration = 3600000000000,
      elapsed = (\<lambda>_. 1000000)\<rparr>"

definition env_no_ingress :: env where
  "env_no_ingress =
     env_demo\<lparr>Services_Get :=
       (\<lambda>_ _ _. Inr \<lparr>Spec_Type = ''LoadBalancer'',
                      Spec_Ports = [\<lparr>TargetPort_StrVal = ''http'', Port = 9090\<rparr>],
                      Status_LoadBalancer_Ingress = []\<rparr>)\<rparr>"

definition state_demo :: state where
  "state_demo = \<lparr>cache_items = Map.empty, clock = 1683608185000000000, lookups = []\<rparr>"

text \<open>
  Three clusters, in the order \<open>c1\<close>, \<open>c2\<close>, \<open>c3\<close>; the stacks of \<open>c1\<close> and \<open>c3\<close> are
  running, the one of \<open>c2\<close> is not. The metrics backend returns no sample.
\<close>

definition env_three :: env where
  "env_three =
     env_demo\<lparr>
       clusterRepo_FetchByOrganizationId :=
         (\<lambda>_. Inr [\<lparr>Cluster.ID = ''c1'', Cluster.Name = ''one'', Cluster.Status = ClusterStatus_other 0\<rparr>,
                   \<lparr>Cluster.ID = ''c2'', Cluster.Name = ''two'', Cluster.Status = ClusterStatus_other 0\<rparr>,
                   \<lparr>Cluster.ID = ''c3'', Cluster.Name = ''three'', Cluster.Status = ClusterStatus_other 0\<rparr>]),
       reflectClusterToStack_Map :=
         (\<lambda>c _. \<lparr>DashboardStack.ID = Cluster.ID c,
                   DashboardStack.Status = (if Cluster.ID c = ''c2'' then ''ERROR'' else ''RUNNING''),
                   DashboardStack.Cpu = [], DashboardStack.Memory = [], DashboardStack.Storage = []\<rparr>),
       thanos_Get := (\<lambda>_ _. Inr [])\<rparr>"

definition stack_of :: "string \<Rightarrow> string \<Rightarrow> DashboardStack" where
  "stack_of i s = \<lparr>DashboardStack.ID = i, DashboardStack.Status = s,
                   DashboardStack.Cpu = [], DashboardStack.Memory = [], DashboardStack.Storage = []\<rparr>"

text \<open>
  One cluster \<open>c1\<close> with 2 bytes free of 10 and a CPU sample; in \<open>env_nan\<close> the CPU
  sample is the \<^verbatim>\<open>NaN\<close> that the metrics backend prints for an undefined ratio.
\<close>

definition env_util :: env where
  "env_util =
     env_demo\<lparr>
       clusterRepo_FetchByOrganizationId :=
         (\<lambda>_. Inr [\<lparr>Cluster.ID = ''c1'', Cluster.Name = ''one'', Cluster.Status = ClusterStatus_other 0\<rparr>]),
       thanos_Get :=
         (\<lambda>_ q. if q = query_stackMemoryDisk
                 then Inr [sample ''node_memory_MemFree_bytes'' ''c1'' ''2'',
                           sample ''machine_memory_bytes'' ''c1'' ''10'']
                 else if q = query_stackCpu then Inr [sample [] ''c1'' ''12.5'']
                 else Inr [])\<rparr>"

definition env_nan :: env where
  "env_nan =
     env_demo\<lparr>
       clusterRepo_FetchByOrganizationId :=
         (\<lambda>_. Inr [\<lparr>Cluster.ID = ''c1'', Cluster.Name = ''one'', Cluster.Status = ClusterStatus_other 0\<rparr>]),
       thanos_Get :=
         (\<lambda>_ q. if q = query_stackCpu then Inr [sample [] ''c1'' ''NaN''] else Inr [])\<rparr>"

section \<open>Auxiliary predicates of the proofs\<close>

definition miss_outcome :: "env \<Rightarrow> string \<Rightarrow> state \<Rightarrow> error + string \<Rightarrow> state \<Rightarrow> bool" where
  "miss_outcome env organizationId st r st' \<longleftrightarrow>
     (\<exists>e. r = Inl e \<and> cache_items st' = cache_items st) \<or>
     (r = Inr [] \<and> cache_items st' = cache_items st) \<or>
     (\<exists>out st0. r = Inr out \<and> out \<noteq> [] \<and> cache_items st0 = cache_items st \<and>
        st' = cache_Set env (prefix_THANOS_URL @ organizationId) out st0)"

text \<open>
  The slice after the elements before index \<open>i\<close> have been inserted by the insertion sort
  with a comparison that asks whether its first element has the property \<open>R\<close>: those
  with the property in reverse order, then the others in their order, then the rest.
\<close>

definition inserted :: "('a \<Rightarrow> bool) \<Rightarrow> nat \<Rightarrow> 'a list \<Rightarrow> 'a list" where
  "inserted R i xs =
     rev (filter R (take i xs)) @ filter (\<lambda>s. \<not> R s) (take i xs) @ drop i xs"

text \<open>
  \<open>swaps lo b xs ys\<close>: the list \<open>ys\<close> comes from \<open>xs\<close> by exchanging pairs of elements at
  indices from \<open>lo\<close> up to, not including, \<open>b\<close>.
\<close>

inductive swaps :: "nat \<Rightarrow> nat \<Rightarrow> 'a list \<Rightarrow> 'a list \<Rightarrow> bool" for lo b xs where
  swaps_refl: "swaps lo b xs xs"
| swaps_step: "swaps lo b xs ys \<Longrightarrow> lo \<le> i \<Longrightarrow> i < b \<Longrightarrow> lo \<le> j \<Longrightarrow> j < b \<Longrightarrow>
     swaps lo b xs (swap ys i j)"

text \<open>
  A comparison that, like the one of \<^verbatim>\<open>GetStacks\<close>, only asks whether its first element
  has a property; a list in which no element with the property comes after one without
  it; and a range of a list whose elements all have the property, together with all
  elements before the range, or all lack it.
\<close>

definition less_holds :: "('a \<Rightarrow> bool) \<Rightarrow> 'a list \<Rightarrow> nat \<Rightarrow> nat \<Rightarrow> bool" where
  "less_holds R xs i j \<longleftrightarrow> R (xs ! i)"

definition holds_first :: "('a \<Rightarrow> bool) \<Rightarrow> nat \<Rightarrow> 'a list \<Rightarrow> bool" where
  "holds_first R n xs \<longleftrightarrow> (\<forall>i j. i < j \<and> j < n \<and> R (xs ! j) \<longrightarrow> R (xs ! i))"

definition uniform :: "('a \<Rightarrow> bool) \<Rightarrow> nat \<Rightarrow> nat \<Rightarrow> 'a list \<Rightarrow> bool" where
  "uniform R a b xs \<longleftrightarrow>
     (\<forall>i < b. R (xs ! i)) \<or> (\<forall>i. a \<le> i \<and> i < b \<longrightarrow> \<not> R (xs ! i))"

text \<open>
  The list is its running entries followed by its other entries: no entry that is not
  running stands before a running one.
\<close>

definition RUNNING_first :: "env \<Rightarrow> DashboardStack list \<Rightarrow> bool" where
  "RUNNING_first env out \<longleftrightarrow>
     out = filter (\<lambda>s. DashboardStack.Status s = StackStatus_RUNNING env) out @
           filter (\<lambda>s. DashboardStack.Status s \<noteq> StackStatus_RUNNING env) out"

text \<open>
  The order the specification words for \<^verbatim>\<open>GetStacks\<close>: a stable sort that puts the
  running entries first.
\<close>

definition stable_RUNNING_first :: "env \<Rightarrow> DashboardStack list \<Rightarrow> DashboardStack list" where
  "stable_RUNNING_first env xs =
     filter (\<lambda>s. DashboardStack.Status s = StackStatus_RUNNING env) xs @
     filter (\<lambda>s. DashboardStack.Status s \<noteq> StackStatus_RUNNING env) xs"

text \<open>
  The samples of a cluster for a metric, and the value the loop of
  \<^verbatim>\<open>getStackMemoryDisk\<close> ends with for that metric: that of the last such sample, or
  the initial value \<open>d\<close> when there is none.
\<close>

definition matching :: "string \<Rightarrow> string \<Rightarrow> MetricDataResult list \<Rightarrow> MetricDataResult list" where
  "matching name clusterId result =
     filter (\<lambda>v. TacoCluster (Metric v) = clusterId \<and> Metric.Name (Metric v) = name) result"

definition lastValue :: "int \<Rightarrow> string \<Rightarrow> string \<Rightarrow> MetricDataResult list \<Rightarrow> int" where
  "lastValue d name clusterId result =
     (case matching name clusterId result of
        [] \<Rightarrow> d
      | v # vs \<Rightarrow> fst (Atoi (snd (Value (last (v # vs))))))"

text \<open>
  The join as the specification words it, with the first matching sample of each
  metric, and the same formulas.
\<close>

definition firstValue :: "string \<Rightarrow> string \<Rightarrow> MetricDataResult list \<Rightarrow> int" where
  "firstValue name clusterId result =
     (case matching name clusterId result of
        [] \<Rightarrow> 0
      | v # vs \<Rightarrow> fst (Atoi (snd (Value v))))"

definition getStackMemoryDisk_firstMatch :: "MetricDataResult list \<Rightarrow> string \<Rightarrow> string \<times> string" where
  "getStackMemoryDisk_firstMatch result clusterId =
     (let free = firstValue ''node_memory_MemFree_bytes'' clusterId result;
          machine = firstValue ''machine_memory_bytes'' clusterId result;
          used = firstValue ''kubelet_volume_stats_used_bytes'' clusterId result;
          capacity = firstValue ''kubelet_volume_stats_capacity_bytes'' clusterId result
      in (if machine > 0 then Sprintf_f 2 (memory_percent free machine) else [],
          if capacity > 0 then Sprintf_f 2 (disk_percent used capacity) else []))"

text \<open>
  The two-decimal string of a number, in exact arithmetic: the number rounded to two
  digits after the point, ties to even.
\<close>

definition two_decimal_string :: "rat \<Rightarrow> string" where
  "two_decimal_string x = Sprintf_f 2 (Finite (x < 0) \<bar>x\<bar>)"

text \<open>
  A two-decimal number: an optional minus sign, one or more digits, a point and two
  digits. A utilization cell is empty, or such a number followed by \<^verbatim>\<open>" %"\<close>.
\<close>

definition is_digit :: "char \<Rightarrow> bool" where
  "is_digit c \<longleftrightarrow> digit_of c \<noteq> None"

definition two_decimal :: "string \<Rightarrow> bool" where
  "two_decimal s =
     (let t = (case s of [] \<Rightarrow> s | c # cs \<Rightarrow> if c = CHR ''-'' then cs else s)
      in takeWhile is_digit t \<noteq> [] \<and>
         (case dropWhile is_digit t of
            [p, a, b] \<Rightarrow> p = CHR ''.'' \<and> is_digit a \<and> is_digit b
          | _ \<Rightarrow> False))"

definition percent_cell :: "string \<Rightarrow> bool" where
  "percent_cell s \<longleftrightarrow>
     s = [] \<or>
     (2 \<le> length s \<and> drop (length s - 2) s = '' %'' \<and> two_decimal (take (length s - 2) s))"

text \<open>A finite value of magnitude at most \<open>2\<^sup>k\<close>.\<close>

definition finite_upto :: "int \<Rightarrow> gofloat \<Rightarrow> bool" where
  "finite_upto k v = (case v of Finite s y \<Rightarrow> 0 \<le> y \<and> y \<le> pow2 k | _ \<Rightarrow> False)"

text \<open>
  Dates as triples of year, month and day, in their order; and the number a string of
  digits spells.
\<close>

definition date_le :: "int \<times> int \<times> int \<Rightarrow> int \<times> int \<times> int \<Rightarrow> bool" where
  "date_le a b =
     (case a of (y1, m1, d1) \<Rightarrow> case b of (y2, m2, d2) \<Rightarrow>
        y1 < y2 \<or> (y1 = y2 \<and> (m1 < m2 \<or> (m1 = m2 \<and> d1 \<le> d2))))"

definition digit_value :: "char \<Rightarrow> nat" where
  "digit_value c = of_char c - 48"

fun decimal :: "string \<Rightarrow> nat" where
  "decimal [] = 0"
| "decimal (c # cs) = digit_value c * 10 ^ length cs + decimal cs"

text \<open>Midnight UTC of the day \<open>n\<close> after 1970-01-01, and the day of a time in its location.\<close>

definition day_start :: "int \<Rightarrow> Time" where
  "day_start n = \<lparr>unix = 86400 * n, zone = 0\<rparr>"

definition day_of :: "Time \<Rightarrow> int" where
  "day_of t = (unix t + zone t) div 86400"

text \<open>The layout \<^verbatim>\<open>2006-01-02\<close> of a date.\<close>

definition format_date :: "int \<times> int \<times> int \<Rightarrow> string" where
  "format_date t = (case t of (year, month, day) \<Rightarrow>
     appendInt year 4 @ ''-'' @ appendInt month 2 @ ''-'' @ appendInt day 2)"

lemma wrap64_range: "minInt64 \<le> wrap64 x \<and> wrap64 x \<le> maxInt64"
  unfolding wrap64_def minInt64_def maxInt64_def
  using pos_mod_bound [of 18446744073709551616 "x + 9223372036854775808"]
        pos_mod_sign [of 18446744073709551616 "x + 9223372036854775808"]
  by linarith

lemma wrap64_id: "minInt64 \<le> x \<Longrightarrow> x \<le> maxInt64 \<Longrightarrow> wrap64 x = x"
  unfolding wrap64_def minInt64_def maxInt64_def by simp

lemma wrap64_add_left: "wrap64 (wrap64 a + b) = wrap64 (a + b)"
proof -
  have "(wrap64 a + b + 9223372036854775808) mod 18446744073709551616 =
        ((a + 9223372036854775808) mod 18446744073709551616 + b) mod 18446744073709551616"
    unfolding wrap64_def by (simp add: algebra_simps)
  also have "\<dots> = (a + 9223372036854775808 + b) mod 18446744073709551616"
    by (simp add: mod_add_left_eq)
  finally show ?thesis
    unfolding wrap64_def by (simp add: algebra_simps)
qed

lemma quo_pos: "0 \<le> a \<Longrightarrow> 0 < b \<Longrightarrow> quo a b = a div b"
  by (cases "a = 0") (simp_all add: quo_def)

lemma quo_GB: "0 < v \<Longrightarrow> quo (quo (quo v 1024) 1024) 1024 = v div 1073741824"
proof -
  assume v: "0 < v"
  have a: "quo v 1024 = v div 1024" using v by (simp add: quo_pos)
  have b: "quo (v div 1024) 1024 = v div 1024 div 1024"
    using v by (simp add: quo_pos pos_imp_zdiv_nonneg_iff)
  have c: "quo (v div 1024 div 1024) 1024 = v div 1024 div 1024 div 1024"
    using v by (simp add: quo_pos pos_imp_zdiv_nonneg_iff)
  show ?thesis
    unfolding a b c by (simp add: div_mult2_eq [symmetric])
qed

lemma GetResources_cpu_loop_sum:
  "minInt64 \<le> cpu \<Longrightarrow> cpu \<le> maxInt64 \<Longrightarrow>
   GetResources_cpu_loop cpu rs = wrap64 (cpu + sum_list (counted rs))"
proof (induction rs arbitrary: cpu)
  case Nil
  then show ?case by (simp add: counted_def wrap64_id)
next
  case (Cons val rest)
  obtain v e where a: "Atoi (snd (Value val)) = (v, e)" by (cases "Atoi (snd (Value val))")
  have tl: "counted (val # rest) = (if e = None \<and> 0 \<le> v then v # counted rest else counted rest)"
    by (simp add: counted_def a)
  show ?case
  proof (cases "e = None \<and> 0 < v")
    case True
    have "GetResources_cpu_loop cpu (val # rest) = GetResources_cpu_loop (wrap64 (cpu + v)) rest"
      using True a by simp
    also have "\<dots> = wrap64 (wrap64 (cpu + v) + sum_list (counted rest))"
      using Cons.IH [of "wrap64 (cpu + v)"] wrap64_range [of "cpu + v"] by simp
    also have "\<dots> = wrap64 (cpu + sum_list (counted (val # rest)))"
      using True by (simp add: wrap64_add_left tl add.assoc)
    finally show ?thesis .
  next
    case False
    have "GetResources_cpu_loop cpu (val # rest) = GetResources_cpu_loop cpu rest"
      using False a by (cases e) auto
    moreover have "sum_list (counted (val # rest)) = sum_list (counted rest)"
      using False by (auto simp: tl)
    ultimately show ?thesis using Cons by simp
  qed
qed

lemma GetResources_bytes_loop_sum:
  "minInt64 \<le> memory \<Longrightarrow> memory \<le> maxInt64 \<Longrightarrow>
   GetResources_bytes_loop memory rs =
     wrap64 (memory + sum_list (map (\<lambda>v. v div 1073741824) (counted rs)))"
proof (induction rs arbitrary: memory)
  case Nil
  then show ?case by (simp add: counted_def wrap64_id)
next
  case (Cons val rest)
  obtain v e where a: "Atoi (snd (Value val)) = (v, e)" by (cases "Atoi (snd (Value val))")
  have tl: "counted (val # rest) = (if e = None \<and> 0 \<le> v then v # counted rest else counted rest)"
    by (simp add: counted_def a)
  show ?case
  proof (cases "e = None \<and> 0 < v")
    case True
    have "GetResources_bytes_loop memory (val # rest) =
          GetResources_bytes_loop (wrap64 (memory + v div 1073741824)) rest"
      using True a by (simp add: quo_GB)
    also have "\<dots> = wrap64 (wrap64 (memory + v div 1073741824) +
                         sum_list (map (\<lambda>v. v div 1073741824) (counted rest)))"
      using Cons.IH [of "wrap64 (memory + v div 1073741824)"]
            wrap64_range [of "memory + v div 1073741824"] by simp
    also have "\<dots> = wrap64 (memory + sum_list (map (\<lambda>v. v div 1073741824) (counted (val # rest))))"
      using True by (simp add: wrap64_add_left tl add.assoc)
    finally show ?thesis .
  next
    case False
    have "GetResources_bytes_loop memory (val # rest) = GetResources_bytes_loop memory rest"
      using False a by (cases e) auto
    moreover have "sum_list (map (\<lambda>v. v div 1073741824) (counted (val # rest))) =
                   sum_list (map (\<lambda>v. v div 1073741824) (counted rest))"
      using False by (auto simp: tl)
    ultimately show ?thesis using Cons by simp
  qed
qed

lemma sum_list_counted_nonneg: "0 \<le> sum_list (counted rs)"
  by (induction rs) (auto simp: counted_def split: prod.splits)

lemma sum_list_counted_GB_nonneg: "0 \<le> sum_list (map (\<lambda>v. v div 1073741824) (counted rs))"
  by (induction rs) (auto simp: counted_def pos_imp_zdiv_nonneg_iff split: prod.splits)

lemma wrap64_small: "0 \<le> x \<Longrightarrow> x \<le> maxInt64 \<Longrightarrow> wrap64 x = x"
  by (rule wrap64_id) (simp_all add: minInt64_def)

text \<open>
  C7. The resource totals: the CPU total is the sum of the core counts of the samples
  that parse and are not negative; a sample that is negative or does not parse is left
  out. The memory and the storage totals are the sums of the byte counts of such
  samples, each divided by \<open>1024\<^sup>3\<close> (integer division) before it is added. The sums
  are those of Go's 64-bit \<^verbatim>\<open>int\<close>, and the plain sums whenever these fit in 64 bits.
\<close>

theorem GetResources_totals:
  assumes "GetResources env organizationId st = (Inr out, st')"
  shows "\<exists>thanosClient cpus mems stors.
           thanos_Get env thanosClient ''sum by (taco_cluster) (machine_cpu_cores)'' = Inr cpus \<and>
           thanos_Get env thanosClient ''sum by (taco_cluster) (machine_memory_bytes)'' = Inr mems \<and>
           thanos_Get env thanosClient
             ''sum by (taco_cluster) (kubelet_volume_stats_capacity_bytes)'' = Inr stors \<and>
           Cpu out = Itoa (wrap64 (sum_list (counted cpus))) @ '' '' @ gae \<and>
           Memory out =
             Itoa (wrap64 (sum_list (map (\<lambda>v. v div 1024 ^ 3) (counted mems)))) @ '' GB'' \<and>
           Storage out =
             Itoa (wrap64 (sum_list (map (\<lambda>v. v div 1024 ^ 3) (counted stors)))) @ '' GB'' \<and>
           (sum_list (counted cpus) \<le> maxInt64 \<longrightarrow>
              Cpu out = Itoa (sum_list (counted cpus)) @ '' '' @ gae) \<and>
           (sum_list (map (\<lambda>v. v div 1024 ^ 3) (counted mems)) \<le> maxInt64 \<longrightarrow>
              Memory out = Itoa (sum_list (map (\<lambda>v. v div 1024 ^ 3) (counted mems))) @ '' GB'') \<and>
           (sum_list (map (\<lambda>v. v div 1024 ^ 3) (counted stors)) \<le> maxInt64 \<longrightarrow>
              Storage out = Itoa (sum_list (map (\<lambda>v. v div 1024 ^ 3) (counted stors))) @ '' GB'')"
proof -
  have z: "minInt64 \<le> 0" "(0::int) \<le> maxInt64" by (simp_all add: minInt64_def maxInt64_def)
  have p: "(1024::int) ^ 3 = 1073741824" by simp
  from assms obtain thanosClient cpus mems stors where
    g1: "thanos_Get env thanosClient ''sum by (taco_cluster) (machine_cpu_cores)'' = Inr cpus" and
    g2: "thanos_Get env thanosClient ''sum by (taco_cluster) (machine_memory_bytes)'' = Inr mems" and
    g3: "thanos_Get env thanosClient
           ''sum by (taco_cluster) (kubelet_volume_stats_capacity_bytes)'' = Inr stors" and
    c: "Cpu out = Itoa (GetResources_cpu_loop 0 cpus) @ '' '' @ gae" and
    m: "Memory out = Itoa (GetResources_bytes_loop 0 mems) @ '' GB''" and
    s: "Storage out = Itoa (GetResources_bytes_loop 0 stors) @ '' GB''"
    unfolding GetResources_def Let_def
    by (auto split: prod.splits sum.splits)
  have c': "GetResources_cpu_loop 0 cpus = wrap64 (sum_list (counted cpus))"
    using GetResources_cpu_loop_sum [OF z, of cpus] by simp
  have m': "GetResources_bytes_loop 0 mems =
            wrap64 (sum_list (map (\<lambda>v. v div 1024 ^ 3) (counted mems)))"
    using GetResources_bytes_loop_sum [OF z, of mems] by (simp add: p)
  have s': "GetResources_bytes_loop 0 stors =
            wrap64 (sum_list (map (\<lambda>v. v div 1024 ^ 3) (counted stors)))"
    using GetResources_bytes_loop_sum [OF z, of stors] by (simp add: p)
  show ?thesis
    apply (rule exI [of _ thanosClient], rule exI [of _ cpus],
           rule exI [of _ mems], rule exI [of _ stors])
    using g1 g2 g3 c m s c' m' s'
    by (simp add: wrap64_small sum_list_counted_nonneg sum_list_counted_GB_nonneg)
qed

lemma getThanosUrl_demo:
  "getThanosUrl env_demo ''o1'' state_demo =
     (Inr ''http://thanos.example.com:9090'',
      cache_Set env_demo ''CACHE_KEY_THANOS_URLo1'' ''http://thanos.example.com:9090''
        (perform env_demo (ServicesGet 0 ''lma'' ''thanos-query-frontend'')
          (perform env_demo (GetClientFromClusterId ''c1'')
            (perform env_demo (OrganizationGet ''o1'') state_demo))))"
  by (simp add: getThanosUrl_def getThanosUrl_service_def env_demo_def state_demo_def
        cache_Get_def prefix_THANOS_URL_def Itoa_def digits.simps Let_def)

theorem GetResources_totals_witness:
  "\<exists>out st'. GetResources env_demo ''o1'' state_demo = (Inr out, st') \<and>
      Cpu out = ''44 '' @ gae \<and> Memory out = ''4 GB''"
proof -
  obtain r st' where e: "GetResources env_demo ''o1'' state_demo = (r, st')"
    by (cases "GetResources env_demo ''o1'' state_demo")
  have "\<exists>out. r = Inr out"
    using e unfolding GetResources_def getThanosUrl_demo
    by (auto simp: env_demo_def Let_def)
  then obtain out where r: "r = Inr out" ..
  have cp: "counted [sample [] ''c1'' ''32'', sample [] ''c2'' ''12'',
                   sample [] ''c3'' ''-5'', sample [] ''c4'' ''abc''] = [32, 12]"
    by (simp add: counted_def sample_def Atoi_def ParseUint_def maxUint64_def digit_of_def maxInt64_def minInt64_def)
  have cm: "counted [sample [] ''c1'' ''3221225471'', sample [] ''c2'' ''3221225471'']
              = [3221225471, 3221225471]"
    by (simp add: counted_def sample_def Atoi_def ParseUint_def maxUint64_def digit_of_def maxInt64_def minInt64_def)
  from GetResources_totals [OF e [unfolded r]] obtain cpus mems where
    cpus: "cpus = [sample [] ''c1'' ''32'', sample [] ''c2'' ''12'',
                   sample [] ''c3'' ''-5'', sample [] ''c4'' ''abc'']" and
    mems: "mems = [sample [] ''c1'' ''3221225471'', sample [] ''c2'' ''3221225471'']" and
    c: "sum_list (counted cpus) \<le> maxInt64 \<longrightarrow>
          Cpu out = Itoa (sum_list (counted cpus)) @ '' '' @ gae" and
    m: "sum_list (map (\<lambda>v. v div 1024 ^ 3) (counted mems)) \<le> maxInt64 \<longrightarrow>
          Memory out = Itoa (sum_list (map (\<lambda>v. v div 1024 ^ 3) (counted mems))) @ '' GB''"
    by (auto simp: env_demo_def)
  have "Cpu out = ''44 '' @ gae"
    using c unfolding cpus cp by (simp add: maxInt64_def Itoa_def digits.simps)
  moreover have "Memory out = ''4 GB''"
    using m unfolding mems cm by (simp add: maxInt64_def Itoa_def digits.simps)
  ultimately show ?thesis using e r by simp
qed

lemma cache_items_perform [simp]: "cache_items (perform env l st) = cache_items st"
  by (simp add: perform_def)

lemma getThanosUrl_service_cases:
  assumes "getThanosUrl_service env organizationId service st = (r, st')"
  shows "(\<exists>e. r = Inl e \<and> st' = st) \<or> (r = Inr [] \<and> st' = st) \<or>
         (\<exists>out. r = Inr out \<and> out \<noteq> [] \<and>
            st' = cache_Set env (prefix_THANOS_URL @ organizationId) out st)"
  using assms unfolding getThanosUrl_service_def Let_def
  by (auto split: if_splits list.splits)

lemma getThanosUrl_service_outcome:
  assumes "cache_items s0 = cache_items st"
    and "getThanosUrl_service env organizationId service s0 = (r, st')"
  shows "miss_outcome env organizationId st r st'"
  using getThanosUrl_service_cases [OF assms(2)] assms(1)
  unfolding miss_outcome_def by auto

lemma miss_outcome_error:
  "cache_items st' = cache_items st \<Longrightarrow> miss_outcome env organizationId st (Inl e) st'"
  by (simp add: miss_outcome_def)

lemma getThanosUrl_miss_cases:
  assumes "getThanosUrl env organizationId st = (r, st')"
    and "cache_Get st (prefix_THANOS_URL @ organizationId) = None"
  shows "miss_outcome env organizationId st r st'"
  using assms unfolding getThanosUrl_def Let_def
  by (auto split: sum.splits if_splits
           intro: miss_outcome_error
           elim: getThanosUrl_service_outcome [rotated])

lemma cache_Get_after_Set:
  assumes "0 \<le> d" and "0 < cache_defaultExpiration env \<longrightarrow> d \<le> cache_defaultExpiration env"
  shows "cache_Get ((cache_Set env k x st)\<lparr>clock := clock (cache_Set env k x st) + d\<rparr>) k = Some x"
  using assms by (auto simp: cache_Get_def cache_Set_def)

text \<open>
  C8. \<^verbatim>\<open>getThanosUrl\<close> writes to the cache only when it returns a composed, non-empty URL:
  a call that fails leaves the cache as it was, and a changed cache holds the returned
  URL under the tenant's key. After a call that missed the cache and composed a URL, a
  second call within the expiration time returns that URL from the cache and makes no
  lookup (the state, with its list of lookups, is returned unchanged).
\<close>

theorem getThanosUrl_cache:
  assumes "getThanosUrl env organizationId st = (r, st')"
  shows "(\<forall>e. r = Inl e \<longrightarrow> cache_items st' = cache_items st) \<and>
         (cache_items st' \<noteq> cache_items st \<longrightarrow>
            (\<exists>out. r = Inr out \<and> out \<noteq> [] \<and>
               cache_items st' (prefix_THANOS_URL @ organizationId) =
                 Some (out, if 0 < cache_defaultExpiration env
                            then clock st' + cache_defaultExpiration env else 0))) \<and>
         (\<forall>out d. r = Inr out \<and> out \<noteq> [] \<and>
                  cache_Get st (prefix_THANOS_URL @ organizationId) = None \<and>
                  0 \<le> d \<and> (0 < cache_defaultExpiration env \<longrightarrow> d \<le> cache_defaultExpiration env) \<longrightarrow>
            getThanosUrl env organizationId (st'\<lparr>clock := clock st' + d\<rparr>) =
              (Inr out, st'\<lparr>clock := clock st' + d\<rparr>))"
proof (cases "cache_Get st (prefix_THANOS_URL @ organizationId)")
  case (Some v)
  with assms have "r = Inr v" "st' = st"
    by (simp_all add: getThanosUrl_def)
  with Some show ?thesis by simp
next
  case None
  from getThanosUrl_miss_cases [OF assms None] show ?thesis
    unfolding miss_outcome_def
  proof (elim disjE exE conjE)
    fix out st0
    assume r: "r = Inr out" and ne: "out \<noteq> []"
      and st': "st' = cache_Set env (prefix_THANOS_URL @ organizationId) out st0"
    have hit: "\<And>d. 0 \<le> d \<Longrightarrow>
        (0 < cache_defaultExpiration env \<longrightarrow> d \<le> cache_defaultExpiration env) \<Longrightarrow>
        getThanosUrl env organizationId (st'\<lparr>clock := clock st' + d\<rparr>) =
          (Inr out, st'\<lparr>clock := clock st' + d\<rparr>)"
      unfolding st' getThanosUrl_def by (simp add: cache_Get_after_Set)
    show ?thesis
      using r ne hit by (simp add: st' cache_Set_def)
  qed auto
qed

theorem getThanosUrl_cache_witness:
  "\<exists>st'. getThanosUrl env_demo ''o1'' state_demo = (Inr ''http://thanos.example.com:9090'', st') \<and>
     length (lookups st') = 3 \<and>
     getThanosUrl env_demo ''o1'' (st'\<lparr>clock := clock st' + 1000000000\<rparr>) =
       (Inr ''http://thanos.example.com:9090'', st'\<lparr>clock := clock st' + 1000000000\<rparr>)"
proof -
  let ?st' = "cache_Set env_demo ''CACHE_KEY_THANOS_URLo1'' ''http://thanos.example.com:9090''
        (perform env_demo (ServicesGet 0 ''lma'' ''thanos-query-frontend'')
          (perform env_demo (GetClientFromClusterId ''c1'')
            (perform env_demo (OrganizationGet ''o1'') state_demo)))"
  have miss: "cache_Get state_demo (prefix_THANOS_URL @ ''o1'') = None"
    by (simp add: cache_Get_def state_demo_def)
  have len: "length (lookups ?st') = 3"
    by (simp add: cache_Set_def perform_def state_demo_def)
  have d: "cache_defaultExpiration env_demo = 3600000000000"
    by (simp add: env_demo_def)
  from getThanosUrl_cache [OF getThanosUrl_demo] miss d
  have "getThanosUrl env_demo ''o1'' (?st'\<lparr>clock := clock ?st' + 1000000000\<rparr>) =
       (Inr ''http://thanos.example.com:9090'', ?st'\<lparr>clock := clock ?st' + 1000000000\<rparr>)"
    by simp
  with getThanosUrl_demo len show ?thesis by blast
qed

text \<open>
  C9. When the metrics service found for the tenant is of type LoadBalancer and reports
  no ingress or no port, \<^verbatim>\<open>getThanosUrl\<close> returns the empty URL with no error, and the
  cache is not written.
\<close>

theorem getThanosUrl_empty_endpoint:
  assumes "cache_Get st (prefix_THANOS_URL @ organizationId) = None"
    and "organizationRepo_Get env organizationId = Inr organization"
    and "PrimaryClusterId organization \<noteq> []"
    and "kubernetes_GetClientFromClusterId env (PrimaryClusterId organization) = Inr clientset_user"
    and "Services_Get env clientset_user ''lma'' ''thanos-query-frontend'' = Inr service \<or>
         (\<exists>e. Services_Get env clientset_user ''lma'' ''thanos-query-frontend'' = Inl e) \<and>
         Services_Get env clientset_user ''lma'' ''thanos-query'' = Inr service"
    and "Spec_Type service = ''LoadBalancer''"
    and "Status_LoadBalancer_Ingress service = [] \<or> Spec_Ports service = []"
  shows "fst (getThanosUrl env organizationId st) = Inr [] \<and>
         cache_items (snd (getThanosUrl env organizationId st)) = cache_items st"
proof -
  have s: "\<And>s0. getThanosUrl_service env organizationId service s0 = (Inr [], s0)"
    using assms(6,7) unfolding getThanosUrl_service_def
    by (auto split: list.splits)
  from assms(5) show ?thesis
  proof
    assume "Services_Get env clientset_user ''lma'' ''thanos-query-frontend'' = Inr service"
    then show ?thesis
      using assms(1-4) by (simp add: getThanosUrl_def Let_def s)
  next
    assume "(\<exists>e. Services_Get env clientset_user ''lma'' ''thanos-query-frontend'' = Inl e) \<and>
         Services_Get env clientset_user ''lma'' ''thanos-query'' = Inr service"
    then show ?thesis
      using assms(1-4) by (auto simp: getThanosUrl_def Let_def s)
  qed
qed

theorem getThanosUrl_empty_endpoint_witness:
  "fst (getThanosUrl env_no_ingress ''o1'' state_demo) = Inr [] \<and>
   cache_items (snd (getThanosUrl env_no_ingress ''o1'' state_demo)) = Map.empty"
proof -
  have "cache_items state_demo = Map.empty"
    by (simp add: state_demo_def)
  with getThanosUrl_empty_endpoint [of state_demo "''o1''" env_no_ingress
      "\<lparr>PrimaryClusterId = ''c1''\<rparr>" 0
      "\<lparr>Spec_Type = ''LoadBalancer'',
        Spec_Ports = [\<lparr>TargetPort_StrVal = ''http'', Port = 9090\<rparr>],
        Status_LoadBalancer_Ingress = []\<rparr>"]
  show ?thesis
    by (simp add: env_no_ingress_def env_demo_def cache_Get_def state_demo_def)
qed

lemma bitlen_nat_bounds: "0 < n \<Longrightarrow> 2 ^ (bitlen_nat n - 1) \<le> n \<and> n < 2 ^ bitlen_nat n"
proof (induction n rule: bitlen_nat.induct)
  case (1 n)
  show ?case
  proof (cases "n div 2 = 0")
    case True
    with "1.prems" have "n = 1" by (simp add: div_eq_0_iff)
    then show ?thesis
      by (simp add: bitlen_nat.simps)
  next
    case False
    with "1.IH" "1.prems" have ih: "2 ^ (bitlen_nat (n div 2) - 1) \<le> n div 2"
      "n div 2 < 2 ^ bitlen_nat (n div 2)" by simp_all
    have b: "bitlen_nat n = Suc (bitlen_nat (n div 2))"
      using "1.prems" by (subst bitlen_nat.simps) simp
    have pos: "0 < bitlen_nat (n div 2)"
      using False by (subst bitlen_nat.simps) simp
    then have s: "bitlen_nat (n div 2) = Suc (bitlen_nat (n div 2) - 1)" by simp
    have "2 ^ (bitlen_nat n - 1) = 2 * 2 ^ (bitlen_nat (n div 2) - 1)"
      unfolding b using s by (metis diff_Suc_1 power_Suc)
    also have "\<dots> \<le> 2 * (n div 2)" using ih(1) by simp
    also have "\<dots> \<le> n" by simp
    finally have lo: "2 ^ (bitlen_nat n - 1) \<le> n" .
    have "n < 2 * (n div 2) + 2" by arith
    also have "\<dots> \<le> 2 * 2 ^ bitlen_nat (n div 2)" using ih(2) by simp
    finally have "n < 2 ^ bitlen_nat n" by (simp add: b)
    with lo show ?thesis by simp
  qed
qed

lemma length_swap [simp]: "length (swap xs i j) = length xs"
  by (simp add: swap_def)

lemma set_swap: "i < length xs \<Longrightarrow> j < length xs \<Longrightarrow> set (swap xs i j) = set xs"
  unfolding swap_def by (metis set_swap)

lemma swaps_length: "swaps lo b xs ys \<Longrightarrow> length ys = length xs"
  by (induction rule: swaps.induct) simp_all

lemma swaps_set: "swaps lo b xs ys \<Longrightarrow> b \<le> length xs \<Longrightarrow> set ys = set xs"
proof (induction rule: swaps.induct)
  case swaps_refl
  show ?case by simp
next
  case (swaps_step ys i j)
  have "length ys = length xs" using swaps_step.hyps(1) by (rule swaps_length)
  then have "set (swap ys i j) = set ys"
    using swaps_step.hyps swaps_step.prems by (intro set_swap) simp_all
  then show ?case using swaps_step by simp
qed

lemma swaps_trans: "swaps lo b ys zs \<Longrightarrow> swaps lo b xs ys \<Longrightarrow> swaps lo b xs zs"
  by (induction rule: swaps.induct) (auto intro: swaps.intros)

lemma swaps_mono:
  "swaps lo b xs ys \<Longrightarrow> lo' \<le> lo \<Longrightarrow> b \<le> b' \<Longrightarrow> swaps lo' b' xs ys"
  by (induction rule: swaps.induct) (auto intro: swaps.intros)

lemma swaps_swap:
  "lo \<le> i \<Longrightarrow> i < b \<Longrightarrow> lo \<le> j \<Longrightarrow> j < b \<Longrightarrow> swaps lo b xs (swap xs i j)"
  by (auto intro: swaps.intros)

lemma swaps_after:
  "swaps lo b (swap xs i j) ys \<Longrightarrow> lo \<le> i \<Longrightarrow> i < b \<Longrightarrow> lo \<le> j \<Longrightarrow> j < b \<Longrightarrow>
   swaps lo b xs ys"
  using swaps_trans swaps_swap by blast

lemma swaps_outside:
  "swaps lo b xs ys \<Longrightarrow> k < lo \<or> b \<le> k \<Longrightarrow> ys ! k = xs ! k"
  by (induction rule: swaps.induct) (auto simp: swap_def)

lemma swaps_map:
  assumes "swaps lo b xs ys" and "b \<le> length xs"
    and "\<And>i j. lo \<le> i \<Longrightarrow> i < b \<Longrightarrow> lo \<le> j \<Longrightarrow> j < b \<Longrightarrow> R (xs ! i) = R (xs ! j)"
  shows "map R ys = map R xs"
  using assms(1)
proof (induction rule: swaps.induct)
  case swaps_refl
  show ?case by simp
next
  case (swaps_step ys i j)
  have len: "length ys = length xs" using swaps_step.hyps(1) by (rule swaps_length)
  have nth: "R (ys ! k) = R (xs ! k)" if "k < length xs" for k
    using swaps_step.IH that len by (metis nth_map)
  have ij: "i < length xs" "j < length xs" using swaps_step.hyps assms(2) by simp_all
  have "R (ys ! i) = R (ys ! j)"
    using nth [OF ij(1)] nth [OF ij(2)] assms(3) [of i j] swaps_step.hyps by simp
  then have "map R (swap ys i j) = map R ys"
    using ij len by (auto simp: swap_def list_eq_iff_nth_eq nth_list_update)
  then show ?case using swaps_step.IH by simp
qed

lemma insertionSort_inner_swaps:
  "a \<le> j \<Longrightarrow> j < b \<Longrightarrow> swaps a b xs (insertionSort_inner lessFn a j xs)"
proof (induction lessFn a j xs rule: insertionSort_inner.induct)
  case (1 lessFn a j xs)
  show ?case
  proof (cases "j > a \<and> lessFn xs j (j - 1)")
    case True
    then have "a \<le> j - 1" "j - 1 < b" using 1(3) by auto
    from 1(1) [OF True this]
    have "swaps a b (swap xs j (j - 1)) (insertionSort_inner lessFn a (j - 1) (swap xs j (j - 1)))" .
    then have "swaps a b xs (insertionSort_inner lessFn a (j - 1) (swap xs j (j - 1)))"
      using True 1(3) by (intro swaps_after [of a b xs j "j - 1"]) auto
    then show ?thesis
      using True by (subst insertionSort_inner.simps) simp
  next
    case False
    then show ?thesis
      by (subst insertionSort_inner.simps) (auto intro: swaps_refl)
  qed
qed

lemma insertionSort_outer_swaps:
  "a \<le> i \<Longrightarrow> swaps a b xs (insertionSort_outer lessFn a b i xs)"
proof (induction lessFn a b i xs rule: insertionSort_outer.induct)
  case (1 lessFn a b i xs)
  show ?case
  proof (cases "i < b")
    case True
    have "swaps a b (insertionSort_inner lessFn a i xs)
            (insertionSort_outer lessFn a b (i + 1) (insertionSort_inner lessFn a i xs))"
      using 1 True by simp
    moreover have "swaps a b xs (insertionSort_inner lessFn a i xs)"
      using 1(2) True by (rule insertionSort_inner_swaps)
    ultimately show ?thesis
      using True by (subst insertionSort_outer.simps) (auto intro: swaps_trans)
  next
    case False
    then show ?thesis
      by (subst insertionSort_outer.simps) (auto intro: swaps_refl)
  qed
qed

lemma insertionSort_func_swaps: "swaps a b xs (insertionSort_func lessFn a b xs)"
  unfolding insertionSort_func_def by (rule insertionSort_outer_swaps) simp

lemma siftDown_func_swaps:
  "first + hi \<le> b \<Longrightarrow> swaps first b xs (siftDown_func lessFn r hi first xs)"
proof (induction lessFn r hi first xs rule: siftDown_func.induct)
  case (1 lessFn r hi first xs)
  show ?case
  proof (cases "2 * r + 1 \<ge> hi")
    case True
    then show ?thesis
      by (subst siftDown_func.simps) (auto intro: swaps_refl)
  next
    case False
    define child where "child = (if 2 * r + 1 + 1 < hi \<and> lessFn xs (first + (2 * r + 1)) (first + (2 * r + 1) + 1)
                      then 2 * r + 1 + 1 else 2 * r + 1)"
    have c: "r < child" "child < hi" using False by (auto simp: child_def)
    show ?thesis
    proof (cases "lessFn xs (first + r) (first + child)")
      case l: True
      have "swaps first b (swap xs (first + r) (first + child))
              (siftDown_func lessFn child hi first (swap xs (first + r) (first + child)))"
        using 1(1) [OF False refl child_def _ 1(2)] l by simp
      then have "swaps first b xs
              (siftDown_func lessFn child hi first (swap xs (first + r) (first + child)))"
        using c 1(2) by (intro swaps_after [of first b xs "first + r" "first + child"]) simp_all
      then show ?thesis
        using False l by (subst siftDown_func.simps) (auto simp: Let_def child_def split: if_splits)
    next
      case l: False
      then show ?thesis
        using False by (subst siftDown_func.simps) (auto simp: Let_def child_def intro: swaps_refl)
    qed
  qed
qed

lemma heapSort_build_swaps:
  "first + hi \<le> b \<Longrightarrow> swaps first b xs (heapSort_build lessFn hi first n xs)"
proof (induction n arbitrary: xs)
  case 0
  show ?case by (simp add: swaps_refl)
next
  case (Suc n)
  show ?case
    using Suc.IH [OF Suc.prems, of "siftDown_func lessFn n hi first xs"]
      siftDown_func_swaps [OF Suc.prems, of xs lessFn n]
    by (auto intro: swaps_trans)
qed

lemma heapSort_pop_swaps:
  "first + n \<le> b \<Longrightarrow> swaps first b xs (heapSort_pop lessFn first n xs)"
proof (induction n arbitrary: xs)
  case 0
  show ?case by (simp add: swaps_refl)
next
  case (Suc n)
  have n: "first + n \<le> b" using Suc.prems by simp
  have "swaps first b (swap xs first (first + n))
          (siftDown_func lessFn 0 n first (swap xs first (first + n)))"
    using n by (rule siftDown_func_swaps)
  then have "swaps first b xs (siftDown_func lessFn 0 n first (swap xs first (first + n)))"
    using Suc.prems by (intro swaps_after [of first b xs first "first + n"]) simp_all
  with Suc.IH [OF n, of "siftDown_func lessFn 0 n first (swap xs first (first + n))"]
  show ?case by (auto intro: swaps_trans)
qed

lemma heapSort_func_swaps: "a \<le> b \<Longrightarrow> swaps a b xs (heapSort_func lessFn a b xs)"
  unfolding heapSort_func_def Let_def
  using heapSort_build_swaps [of a "b - a" b xs lessFn "(b - a - 1) div 2 + 1"]
    heapSort_pop_swaps [of a "b - a" b "heapSort_build lessFn (b - a) a ((b - a - 1) div 2 + 1) xs" lessFn]
  by (auto intro: swaps_trans)

lemma reverseRange_loop_swaps:
  "a \<le> i \<Longrightarrow> j < b \<Longrightarrow> swaps a b xs (reverseRange_loop i j xs)"
proof (induction i j xs rule: reverseRange_loop.induct)
  case (1 i j xs)
  show ?case
  proof (cases "i < j")
    case True
    have "swaps a b (swap xs i j) (reverseRange_loop (i + 1) (j - 1) (swap xs i j))"
      using 1 True by simp
    then have "swaps a b xs (reverseRange_loop (i + 1) (j - 1) (swap xs i j))"
      using True 1(2,3) by (intro swaps_after [of a b xs i j]) simp_all
    then show ?thesis
      using True by (subst reverseRange_loop.simps) simp
  next
    case False
    then show ?thesis
      by (subst reverseRange_loop.simps) (auto intro: swaps_refl)
  qed
qed

lemma reverseRange_func_swaps: "swaps a b xs (reverseRange_func a b xs)"
proof (cases "b = 0")
  case True
  then show ?thesis
    unfolding reverseRange_func_def
    by (subst reverseRange_loop.simps) (auto intro: swaps_refl)
next
  case False
  then show ?thesis
    unfolding reverseRange_func_def by (intro reverseRange_loop_swaps) simp_all
qed

lemma nextPowerOfTwo_bounds: "0 < len \<Longrightarrow> 0 < nextPowerOfTwo len \<and> nextPowerOfTwo len \<le> 2 * len"
proof -
  assume l: "0 < len"
  then have "0 < bitlen_nat len" by (subst bitlen_nat.simps) simp
  then have "(2::nat) ^ bitlen_nat len = 2 * 2 ^ (bitlen_nat len - 1)"
    by (cases "bitlen_nat len") simp_all
  with bitlen_nat_bounds [OF l] show ?thesis
    by (simp add: nextPowerOfTwo_def)
qed

lemma and_mask_less: "0 < m \<Longrightarrow> (r::nat) AND (m - 1) < m"
proof -
  assume m: "0 < m"
  have "r AND (m - 1) \<le> m - 1"
    by (metis AND_upper2 of_nat_0_le_iff of_nat_and_eq of_nat_le_iff)
  with m show ?thesis by simp
qed

lemma breakPatterns_loop_swaps:
  assumes "a + 1 \<le> idx" and "idx + 1 < a + len" and "0 < modulus" and "modulus \<le> 2 * len"
    and "b = a + len"
  shows "swaps a b xs (breakPatterns_loop env a len modulus idx i random xs)"
  using assms
proof (induction env a len modulus idx i random xs rule: breakPatterns_loop.induct)
  case (1 env a len modulus idx i random xs)
  show ?case
  proof (cases "i < 3")
    case True
    define r where "r = xorshift_Next env random"
    define o1 where "o1 = r AND (modulus - 1)"
    define other where "other = (if o1 \<ge> len then o1 - len else o1)"
    have "o1 < modulus" unfolding o1_def using 1(4) by (rule and_mask_less)
    then have o: "other < len" using 1(5) by (auto simp: other_def)
    have "swaps a b (swap xs (idx - 1 + i) (a + other))
            (breakPatterns_loop env a len modulus idx (i + 1) r (swap xs (idx - 1 + i) (a + other)))"
      using 1(1) [OF True r_def o1_def other_def 1(2-6)] .
    then have "swaps a b xs
            (breakPatterns_loop env a len modulus idx (i + 1) r (swap xs (idx - 1 + i) (a + other)))"
      using True o 1(2,3,6)
      by (intro swaps_after [of a b xs "idx - 1 + i" "a + other"]) auto
    then show ?thesis
      using True unfolding other_def o1_def r_def
      by (subst breakPatterns_loop.simps) (auto simp: Let_def split: if_splits)
  next
    case False
    then show ?thesis
      by (subst breakPatterns_loop.simps) (auto intro: swaps_refl)
  qed
qed

lemma breakPatterns_func_swaps: "a \<le> b \<Longrightarrow> swaps a b xs (breakPatterns_func env a b xs)"
proof (cases "b - a \<ge> 8")
  case True
  assume ab: "a \<le> b"
  define len where "len = b - a"
  have l: "8 \<le> len" "b = a + len" using True ab by (simp_all add: len_def)
  have d: "2 \<le> len div 4" using l(1) by simp
  have d2: "(len div 4) * 2 < len" using l(1) by simp
  have "swaps a b xs
     (breakPatterns_loop env a len (nextPowerOfTwo len) (a + (len div 4) * 2 - 1) 0 len xs)"
    using nextPowerOfTwo_bounds [of len] l d d2
    by (intro breakPatterns_loop_swaps) simp_all
  then show ?thesis
    using True by (simp add: breakPatterns_func_def Let_def len_def)
next
  case False
  then show ?thesis
    by (simp add: breakPatterns_func_def Let_def swaps_refl)
qed

lemma partition_left_ge: "i \<le> partition_left lessFn a xs i j"
  by (induction lessFn a xs i j rule: partition_left.induct)
     (subst partition_left.simps, auto)

lemma partition_left_le: "i \<le> j + 1 \<Longrightarrow> partition_left lessFn a xs i j \<le> j + 1"
  by (induction lessFn a xs i j rule: partition_left.induct)
     (subst partition_left.simps, auto)

lemma partition_right_le: "partition_right lessFn a xs i j \<le> j"
  by (induction lessFn a xs i j rule: partition_right.induct)
     (subst partition_right.simps, auto)

lemma partition_right_ge:
  "c + 1 \<le> i \<Longrightarrow> c \<le> j \<Longrightarrow> c \<le> partition_right lessFn a xs i j"
  by (induction lessFn a xs i j rule: partition_right.induct)
     (subst partition_right.simps, auto)

lemma partition_loop_swaps:
  "c + 1 \<le> i \<Longrightarrow> c \<le> j \<Longrightarrow> j < b \<Longrightarrow>
   swaps (c + 1) b xs (fst (partition_loop lessFn a xs i j)) \<and>
   c \<le> snd (partition_loop lessFn a xs i j) \<and> snd (partition_loop lessFn a xs i j) \<le> j"
proof (induction lessFn a xs i j rule: partition_loop.induct)
  case (1 lessFn a xs i j)
  define i' where "i' = partition_left lessFn a xs i j"
  define j' where "j' = partition_right lessFn a xs i' j"
  have i': "c + 1 \<le> i'" using partition_left_ge [of i lessFn a xs j] 1(2) by (simp add: i'_def)
  have j': "c \<le> j'" "j' \<le> j"
    using partition_right_ge [OF i' 1(3), of lessFn a xs] partition_right_le [of lessFn a xs i' j]
    by (simp_all add: j'_def)
  show ?case
  proof (cases "i' > j'")
    case True
    have "partition_loop lessFn a xs i j = (xs, j')"
      using True by (subst partition_loop.simps) (simp add: Let_def i'_def j'_def)
    then show ?thesis using j' by (simp add: swaps_refl)
  next
    case False
    have e: "partition_loop lessFn a xs i j = partition_loop lessFn a (swap xs i' j') (i' + 1) (j' - 1)"
      using False by (subst partition_loop.simps) (simp add: Let_def i'_def j'_def)
    have p: "c + 1 \<le> i' + 1" "c \<le> j' - 1" "j' - 1 < b" using False i' j' 1(4) by auto
    from 1(1) [OF i'_def j'_def False p]
    have ih: "swaps (c + 1) b (swap xs i' j') (fst (partition_loop lessFn a xs i j))"
      "c \<le> snd (partition_loop lessFn a xs i j)"
      "snd (partition_loop lessFn a xs i j) \<le> j' - 1"
      unfolding e by simp_all
    have "swaps (c + 1) b xs (fst (partition_loop lessFn a xs i j))"
      using ih(1) False i' j' 1(4)
      by (intro swaps_after [of "c + 1" b xs i' j']) auto
    then show ?thesis using ih(2,3) j' by auto
  qed
qed

lemma partition_func_swaps:
  assumes "a < b" and "a \<le> pivot" and "pivot < b"
  shows "swaps a b xs (fst (partition_func lessFn a b pivot xs)) \<and>
         a \<le> fst (snd (partition_func lessFn a b pivot xs)) \<and>
         fst (snd (partition_func lessFn a b pivot xs)) < b"
proof -
  define zs where "zs = swap xs a pivot"
  define i' where "i' = partition_left lessFn a zs (a + 1) (b - 1)"
  define j' where "j' = partition_right lessFn a zs i' (b - 1)"
  have z: "swaps a b xs zs" unfolding zs_def using assms by (intro swaps_swap) simp_all
  have i': "a + 1 \<le> i'" using partition_left_ge [of "a + 1" lessFn a zs "b - 1"] by (simp add: i'_def)
  have j': "a \<le> j'" "j' < b"
    using partition_right_ge [OF i', of "b - 1" lessFn a zs]
      partition_right_le [of lessFn a zs i' "b - 1"] assms(1)
    by (simp_all add: j'_def)
  show ?thesis
  proof (cases "i' > j'")
    case True
    have "partition_func lessFn a b pivot xs = (swap zs j' a, j', True)"
      using True unfolding partition_func_def j'_def i'_def zs_def by (simp add: Let_def)
    moreover have "swaps a b xs (swap zs j' a)"
      using z j' assms(1) by (intro swaps_step) simp_all
    ultimately show ?thesis using j' by simp
  next
    case False
    define r where "r = partition_loop lessFn a (swap zs i' j') (i' + 1) (j' - 1)"
    have e: "partition_func lessFn a b pivot xs = (swap (fst r) (snd r) a, snd r, False)"
      using False unfolding partition_func_def r_def j'_def i'_def zs_def
      by (simp add: Let_def split: prod.splits)
    have p: "a + 1 \<le> i' + 1" "a \<le> j' - 1" "j' - 1 < b" using False i' j' by auto
    from partition_loop_swaps [OF p, of "swap zs i' j'" lessFn a]
    have l: "swaps (a + 1) b (swap zs i' j') (fst r)" "a \<le> snd r" "snd r \<le> j' - 1"
      by (simp_all add: r_def)
    have "swaps a b zs (swap zs i' j')"
      using False i' j' by (intro swaps_swap) auto
    with z have "swaps a b xs (swap zs i' j')" by (rule swaps_trans [rotated])
    moreover have "swaps a b (swap zs i' j') (fst r)"
      using l(1) by (rule swaps_mono) simp_all
    ultimately have "swaps a b xs (fst r)" by (rule swaps_trans [rotated])
    then have "swaps a b xs (swap (fst r) (snd r) a)"
      using l(2,3) j' assms(1) by (intro swaps_step) auto
    then show ?thesis using l(2,3) j' by (auto simp: e)
  qed
qed

lemma partitionEqual_left_ge: "i \<le> partitionEqual_left lessFn a xs i j"
  by (induction lessFn a xs i j rule: partitionEqual_left.induct)
     (subst partitionEqual_left.simps, auto)

lemma partitionEqual_right_le: "partitionEqual_right lessFn a xs i j \<le> j"
  by (induction lessFn a xs i j rule: partitionEqual_right.induct)
     (subst partitionEqual_right.simps, auto)

lemma partitionEqual_loop_swaps:
  "c \<le> i \<Longrightarrow> j < b \<Longrightarrow>
   swaps c b xs (fst (partitionEqual_loop lessFn a xs i j)) \<and>
   i \<le> snd (partitionEqual_loop lessFn a xs i j)"
proof (induction lessFn a xs i j rule: partitionEqual_loop.induct)
  case (1 lessFn a xs i j)
  define i' where "i' = partitionEqual_left lessFn a xs i j"
  define j' where "j' = partitionEqual_right lessFn a xs i' j"
  have i': "i \<le> i'" using partitionEqual_left_ge [of i lessFn a xs j] by (simp add: i'_def)
  have j': "j' \<le> j" using partitionEqual_right_le [of lessFn a xs i' j] by (simp add: j'_def)
  show ?case
  proof (cases "i' > j'")
    case True
    have "partitionEqual_loop lessFn a xs i j = (xs, i')"
      using True by (subst partitionEqual_loop.simps) (simp add: Let_def i'_def j'_def)
    then show ?thesis using i' by (simp add: swaps_refl)
  next
    case False
    have e: "partitionEqual_loop lessFn a xs i j =
             partitionEqual_loop lessFn a (swap xs i' j') (i' + 1) (j' - 1)"
      using False by (subst partitionEqual_loop.simps) (simp add: Let_def i'_def j'_def)
    have p: "c \<le> i' + 1" "j' - 1 < b" using i' j' 1(2,3) by auto
    from 1(1) [OF i'_def j'_def False p]
    have ih: "swaps c b (swap xs i' j') (fst (partitionEqual_loop lessFn a xs i j))"
      "i' + 1 \<le> snd (partitionEqual_loop lessFn a xs i j)"
      unfolding e by simp_all
    have "swaps c b xs (fst (partitionEqual_loop lessFn a xs i j))"
      using ih(1) False i' j' 1(2,3)
      by (intro swaps_after [of c b xs i' j']) auto
    then show ?thesis using ih(2) i' by auto
  qed
qed

lemma partitionEqual_func_swaps:
  assumes "a < b" and "a \<le> pivot" and "pivot < b"
  shows "swaps a b xs (fst (partitionEqual_func lessFn a b pivot xs)) \<and>
         a < snd (partitionEqual_func lessFn a b pivot xs)"
proof -
  have z: "swaps a b xs (swap xs a pivot)" using assms by (intro swaps_swap) simp_all
  have "a \<le> a + 1" "b - 1 < b" using assms(1) by simp_all
  from partitionEqual_loop_swaps [OF this, of "swap xs a pivot" lessFn a]
  have "swaps a b (swap xs a pivot) (fst (partitionEqual_func lessFn a b pivot xs))"
    "a + 1 \<le> snd (partitionEqual_func lessFn a b pivot xs)"
    by (simp_all add: partitionEqual_func_def)
  with z show ?thesis by (auto intro: swaps_trans)
qed

lemma partialInsertionSort_scan_ge: "i \<le> partialInsertionSort_scan lessFn b xs i"
  by (induction lessFn b xs i rule: partialInsertionSort_scan.induct)
     (subst partialInsertionSort_scan.simps, auto)

lemma partialInsertionSort_scan_le: "i \<le> b \<Longrightarrow> partialInsertionSort_scan lessFn b xs i \<le> b"
  by (induction lessFn b xs i rule: partialInsertionSort_scan.induct)
     (subst partialInsertionSort_scan.simps, auto)

lemma partialInsertionSort_left_swaps:
  "j < b \<Longrightarrow> swaps 0 b xs (partialInsertionSort_left lessFn j xs)"
proof (induction lessFn j xs rule: partialInsertionSort_left.induct)
  case (1 lessFn j xs)
  show ?case
  proof (cases "j \<ge> 1 \<and> lessFn xs j (j - 1)")
    case True
    then have "1 \<le> j" "\<not> \<not> lessFn xs j (j - 1)" "j - 1 < b" using 1(2) by auto
    from 1(1) [OF this]
    have "swaps 0 b (swap xs j (j - 1)) (partialInsertionSort_left lessFn (j - 1) (swap xs j (j - 1)))" .
    then have "swaps 0 b xs (partialInsertionSort_left lessFn (j - 1) (swap xs j (j - 1)))"
      using 1(2) by (intro swaps_after [of 0 b xs j "j - 1"]) auto
    then show ?thesis
      using True by (subst partialInsertionSort_left.simps) auto
  next
    case False
    then show ?thesis
      by (subst partialInsertionSort_left.simps) (auto intro: swaps_refl)
  qed
qed

lemma partialInsertionSort_right_swaps:
  "1 \<le> j \<Longrightarrow> swaps (j - 1) b xs (partialInsertionSort_right lessFn b j xs)"
proof (induction lessFn b j xs rule: partialInsertionSort_right.induct)
  case (1 lessFn b j xs)
  show ?case
  proof (cases "j < b \<and> lessFn xs j (j - 1)")
    case True
    then have "j < b" "\<not> \<not> lessFn xs j (j - 1)" "1 \<le> j + 1" by auto
    from 1(1) [OF this]
    have "swaps j b (swap xs j (j - 1)) (partialInsertionSort_right lessFn b (j + 1) (swap xs j (j - 1)))"
      by simp
    then have "swaps (j - 1) b (swap xs j (j - 1))
                 (partialInsertionSort_right lessFn b (j + 1) (swap xs j (j - 1)))"
      by (rule swaps_mono) simp_all
    then have "swaps (j - 1) b xs (partialInsertionSort_right lessFn b (j + 1) (swap xs j (j - 1)))"
      using True 1(2) by (intro swaps_after [of "j - 1" b xs j "j - 1"]) auto
    then show ?thesis
      using True by (subst partialInsertionSort_right.simps) auto
  next
    case False
    then show ?thesis
      by (subst partialInsertionSort_right.simps) (auto intro: swaps_refl)
  qed
qed

lemma partialInsertionSort_loop_swaps:
  "1 \<le> i \<Longrightarrow> i \<le> b \<Longrightarrow> swaps 0 b xs (fst (partialInsertionSort_loop lessFn a b n i xs))"
proof (induction n arbitrary: i xs)
  case 0
  show ?case by (simp add: swaps_refl)
next
  case (Suc n)
  define i' where "i' = partialInsertionSort_scan lessFn b xs i"
  have i': "1 \<le> i'" "i' \<le> b"
    using partialInsertionSort_scan_ge [of i lessFn b xs]
      partialInsertionSort_scan_le [OF Suc.prems(2), of lessFn xs] Suc.prems(1)
    by (simp_all add: i'_def)
  show ?case
  proof (cases "i' = b \<or> b - a < 50")
    case True
    then show ?thesis
      by (auto simp: Let_def i'_def [symmetric] swaps_refl)
  next
    case False
    define xs1 where "xs1 = swap xs i' (i' - 1)"
    define xs2 where "xs2 = (if i' - a \<ge> 2 then partialInsertionSort_left lessFn (i' - 1) xs1 else xs1)"
    define xs3 where "xs3 = (if b - i' \<ge> 2 then partialInsertionSort_right lessFn b (i' + 1) xs2 else xs2)"
    have lt: "i' < b" using False i' by simp
    have s1: "swaps 0 b xs xs1"
      unfolding xs1_def using lt by (intro swaps_swap) simp_all
    have "swaps 0 b xs1 xs2"
      unfolding xs2_def using lt partialInsertionSort_left_swaps [of "i' - 1" b xs1 lessFn]
      by (auto intro: swaps_refl)
    with s1 have s2: "swaps 0 b xs xs2" by (rule swaps_trans [rotated])
    have "swaps 0 b xs2 xs3"
      unfolding xs3_def
      using swaps_mono [OF partialInsertionSort_right_swaps [of "i' + 1" b xs2 lessFn], of 0 b]
      by (auto intro: swaps_refl)
    with s2 have s3: "swaps 0 b xs xs3" by (rule swaps_trans [rotated])
    have e: "partialInsertionSort_loop lessFn a b (Suc n) i xs =
             partialInsertionSort_loop lessFn a b n i' xs3"
      using False by (simp add: Let_def i'_def xs1_def xs2_def xs3_def)
    show ?thesis
      unfolding e using Suc.IH [OF i', of xs3] s3 by (rule swaps_trans)
  qed
qed

lemma partialInsertionSort_func_swaps:
  "a < b \<Longrightarrow> swaps 0 b xs (fst (partialInsertionSort_func lessFn a b xs))"
  unfolding partialInsertionSort_func_def
  by (rule partialInsertionSort_loop_swaps) simp_all

lemma order2_func_cases:
  "fst (order2_func lessFn xs a b s) \<in> {a, b} \<and> fst (snd (order2_func lessFn xs a b s)) \<in> {a, b}"
  by (simp add: order2_func_def)

lemma median_func_cases: "fst (median_func lessFn xs a b c s) \<in> {a, b, c}"
  unfolding median_func_def Let_def
  by (auto simp: order2_func_def split: prod.splits if_splits)

lemma medianAdjacent_func_cases: "fst (medianAdjacent_func lessFn xs a s) \<in> {a - 1, a, a + 1}"
  unfolding medianAdjacent_func_def by (rule median_func_cases)

lemma choosePivot_func_range:
  assumes "12 < b - a"
  shows "a \<le> fst (choosePivot_func lessFn xs a b) \<and> fst (choosePivot_func lessFn xs a b) < b"
proof -
  define l where "l = b - a"
  have l: "12 < l" "b = a + l" using assms by (simp_all add: l_def)
  define q where "q = l div 4"
  have q: "3 \<le> q" "4 * q \<le> l" using l(1) by (simp_all add: q_def)
  show ?thesis
  proof (cases "l \<ge> 50")
    case False
    define m where "m = median_func lessFn xs (a + q * 1) (a + q * 2) (a + q * 3) 0"
    have "fst (choosePivot_func lessFn xs a b) = fst m"
      using False l(1)
      by (simp add: choosePivot_func_def Let_def l_def [symmetric] q_def [symmetric] m_def
            split: prod.splits)
    moreover have "fst m \<in> {a + q * 1, a + q * 2, a + q * 3}"
      unfolding m_def by (rule median_func_cases)
    ultimately show ?thesis using q l(2) by auto
  next
    case True
    define i where "i = medianAdjacent_func lessFn xs (a + q * 1) 0"
    define j where "j = medianAdjacent_func lessFn xs (a + q * 2) (snd i)"
    define k where "k = medianAdjacent_func lessFn xs (a + q * 3) (snd j)"
    define m where "m = median_func lessFn xs (fst i) (fst j) (fst k) (snd k)"
    have "fst (choosePivot_func lessFn xs a b) = fst m"
      using True
      by (simp add: choosePivot_func_def Let_def l_def [symmetric] q_def [symmetric]
            m_def i_def j_def k_def split: prod.splits)
    moreover have "fst m \<in> {fst i, fst j, fst k}"
      unfolding m_def by (rule median_func_cases)
    moreover have "fst i \<in> {a + q * 1 - 1, a + q * 1, a + q * 1 + 1}"
      unfolding i_def by (rule medianAdjacent_func_cases)
    moreover have "fst j \<in> {a + q * 2 - 1, a + q * 2, a + q * 2 + 1}"
      unfolding j_def by (rule medianAdjacent_func_cases)
    moreover have "fst k \<in> {a + q * 3 - 1, a + q * 3, a + q * 3 + 1}"
      unfolding k_def by (rule medianAdjacent_func_cases)
    ultimately show ?thesis using q l(2) by auto
  qed
qed

lemma pdqsort_pivot_swaps:
  assumes "pdqsort_pivot env lessFn a b limit wasBalanced wasPartitioned xs = (ys, limit', pivot, isSorted)"
    and "12 < b - a"
  shows "swaps 0 b xs ys \<and> a \<le> pivot \<and> pivot < b"
proof -
  define xs1 where "xs1 = (if \<not> wasBalanced then breakPatterns_func env a b xs else xs)"
  define p where "p = choosePivot_func lessFn xs1 a b"
  define xs2 where "xs2 = (if snd p = decreasingHint then reverseRange_func a b xs1 else xs1)"
  define pivot2 where "pivot2 = (if snd p = decreasingHint then (b - 1) - (fst p - a) else fst p)"
  define hint2 where "hint2 = (if snd p = decreasingHint then increasingHint else snd p)"
  define r where "r = (if wasBalanced \<and> wasPartitioned \<and> hint2 = increasingHint
                       then partialInsertionSort_func lessFn a b xs2 else (xs2, False))"
  have e: "pdqsort_pivot env lessFn a b limit wasBalanced wasPartitioned xs =
           (fst r, (if \<not> wasBalanced then limit - 1 else limit), pivot2, snd r)"
    unfolding pdqsort_pivot_def r_def hint2_def pivot2_def xs2_def p_def xs1_def
    by (simp add: Let_def split: prod.splits)
  have ab: "a < b" "a \<le> b" using assms(2) by simp_all
  have s1: "swaps 0 b xs xs1"
    unfolding xs1_def using swaps_mono [OF breakPatterns_func_swaps [OF ab(2), of xs env], of 0 b]
    by (auto intro: swaps_refl)
  have "swaps 0 b xs1 xs2"
    unfolding xs2_def using swaps_mono [OF reverseRange_func_swaps [of a b xs1], of 0 b]
    by (auto intro: swaps_refl)
  with s1 have s2: "swaps 0 b xs xs2" by (rule swaps_trans [rotated])
  have "swaps 0 b xs2 (fst r)"
    unfolding r_def using partialInsertionSort_func_swaps [OF ab(1), of xs2 lessFn]
    by (auto intro: swaps_refl)
  with s2 have s3: "swaps 0 b xs (fst r)" by (rule swaps_trans [rotated])
  have "a \<le> fst p \<and> fst p < b"
    unfolding p_def using assms(2) by (rule choosePivot_func_range)
  then have "a \<le> pivot2 \<and> pivot2 < b" using ab by (auto simp: pivot2_def)
  with s3 assms(1) show ?thesis unfolding e by auto
qed

lemma pdqsort_loop_small:
  "b - a \<le> 12 \<Longrightarrow>
   pdqsort_loop env lessFn a b limit wasBalanced wasPartitioned xs = insertionSort_func lessFn a b xs"
  by (subst pdqsort_loop.simps) simp

lemma pdqsort_loop_heap:
  "12 < b - a \<Longrightarrow>
   pdqsort_loop env lessFn a b 0 wasBalanced wasPartitioned xs = heapSort_func lessFn a b xs"
  by (subst pdqsort_loop.simps) simp

lemma pdqsort_loop_sorted:
  assumes "12 < b - a" and "limit \<noteq> 0"
    and "pdqsort_pivot env lessFn a b limit wasBalanced wasPartitioned xs = (ys, limit', pivot, True)"
  shows "pdqsort_loop env lessFn a b limit wasBalanced wasPartitioned xs = ys"
  using assms by (subst pdqsort_loop.simps) (simp add: Let_def)

lemma pdqsort_loop_equal:
  assumes "12 < b - a" and "limit \<noteq> 0"
    and "pdqsort_pivot env lessFn a b limit wasBalanced wasPartitioned xs = (ys, limit', pivot, False)"
    and "0 < a" and "\<not> lessFn ys (a - 1) pivot"
    and "partitionEqual_func lessFn a b pivot ys = (zs, mid)"
  shows "pdqsort_loop env lessFn a b limit wasBalanced wasPartitioned xs =
         pdqsort_loop env lessFn mid b limit' wasBalanced wasPartitioned zs"
  using assms by (subst pdqsort_loop.simps) (simp add: Let_def)

lemma pdqsort_loop_left:
  assumes "12 < b - a" and "limit \<noteq> 0"
    and "pdqsort_pivot env lessFn a b limit wasBalanced wasPartitioned xs = (ys, limit', pivot, False)"
    and "a = 0 \<or> lessFn ys (a - 1) pivot"
    and "partition_func lessFn a b pivot ys = (zs, mid, alreadyPartitioned)"
    and "mid - a < b - mid"
  shows "pdqsort_loop env lessFn a b limit wasBalanced wasPartitioned xs =
         pdqsort_loop env lessFn (mid + 1) b limit' (mid - a \<ge> (b - a) div 8) alreadyPartitioned
           (pdqsort_loop env lessFn a mid limit' True True zs)"
  using assms by (subst pdqsort_loop.simps) (auto simp: Let_def)

lemma pdqsort_loop_right:
  assumes "12 < b - a" and "limit \<noteq> 0"
    and "pdqsort_pivot env lessFn a b limit wasBalanced wasPartitioned xs = (ys, limit', pivot, False)"
    and "a = 0 \<or> lessFn ys (a - 1) pivot"
    and "partition_func lessFn a b pivot ys = (zs, mid, alreadyPartitioned)"
    and "\<not> mid - a < b - mid"
  shows "pdqsort_loop env lessFn a b limit wasBalanced wasPartitioned xs =
         pdqsort_loop env lessFn a mid limit' (b - mid \<ge> (b - a) div 8) alreadyPartitioned
           (pdqsort_loop env lessFn (mid + 1) b limit' True True zs)"
  using assms by (subst pdqsort_loop.simps) (auto simp: Let_def)

lemma pdqsort_loop_swaps:
  "swaps 0 b xs (pdqsort_loop env lessFn a b limit wasBalanced wasPartitioned xs)"
proof (induction "b - a" arbitrary: a b limit wasBalanced wasPartitioned xs rule: less_induct)
  case less
  show ?case
  proof (cases "b - a \<le> 12")
    case True
    then show ?thesis
      using swaps_mono [OF insertionSort_func_swaps [of a b xs lessFn], of 0 b]
      by (simp add: pdqsort_loop_small)
  next
    case False
    then have big: "12 < b - a" by simp
    show ?thesis
    proof (cases "limit = 0")
      case True
      then show ?thesis
        using swaps_mono [OF heapSort_func_swaps [of a b xs lessFn], of 0 b] big
        by (simp add: pdqsort_loop_heap)
    next
      case lim: False
      obtain ys limit' pivot isSorted where
        pv: "pdqsort_pivot env lessFn a b limit wasBalanced wasPartitioned xs =
             (ys, limit', pivot, isSorted)"
        by (metis prod_cases4)
      from pdqsort_pivot_swaps [OF pv big]
      have ys: "swaps 0 b xs ys" and p: "a \<le> pivot" "pivot < b" by simp_all
      have ab: "a < b" using big by simp
      show ?thesis
      proof (cases isSorted)
        case True
        with pv have "pdqsort_pivot env lessFn a b limit wasBalanced wasPartitioned xs =
             (ys, limit', pivot, True)" by simp
        from pdqsort_loop_sorted [OF big lim this] ys show ?thesis by simp
      next
        case ns: False
        with pv have pv': "pdqsort_pivot env lessFn a b limit wasBalanced wasPartitioned xs =
             (ys, limit', pivot, False)" by simp
        show ?thesis
        proof (cases "a > 0 \<and> \<not> lessFn ys (a - 1) pivot")
          case True
          obtain zs mid where pe: "partitionEqual_func lessFn a b pivot ys = (zs, mid)"
            by (cases "partitionEqual_func lessFn a b pivot ys")
          from partitionEqual_func_swaps [OF ab p, of ys lessFn]
          have z: "swaps a b ys zs" and m: "a < mid" by (simp_all add: pe)
          have "swaps 0 b ys zs" using z by (rule swaps_mono) simp_all
          with ys have "swaps 0 b xs zs" by (rule swaps_trans [rotated])
          moreover have "b - mid < b - a" using m ab by simp
          from less [OF this]
          have "swaps 0 b zs (pdqsort_loop env lessFn mid b limit' wasBalanced wasPartitioned zs)" .
          ultimately show ?thesis
            using True pdqsort_loop_equal [OF big lim pv' _ _ pe] by (simp add: swaps_trans)
        next
          case False
          then have na: "a = 0 \<or> lessFn ys (a - 1) pivot" by auto
          obtain zs mid ap where pf: "partition_func lessFn a b pivot ys = (zs, mid, ap)"
            by (metis prod_cases3)
          from partition_func_swaps [OF ab p, of ys lessFn]
          have z: "swaps a b ys zs" and m: "a \<le> mid" "mid < b"
            by (simp_all add: pf)
          have "swaps 0 b ys zs" using z by (rule swaps_mono) simp_all
          with ys have xz: "swaps 0 b xs zs" by (rule swaps_trans [rotated])
          have d1: "mid - a < b - a" and d2: "b - (mid + 1) < b - a" using m by simp_all
          show ?thesis
          proof (cases "mid - a < b - mid")
            case True
            define us where "us = pdqsort_loop env lessFn a mid limit' True True zs"
            have "swaps 0 mid zs us" unfolding us_def by (rule less [OF d1])
            then have "swaps 0 b zs us" using m by (intro swaps_mono [of 0 mid zs us 0 b]) simp_all
            with xz have xu: "swaps 0 b xs us" by (rule swaps_trans [rotated])
            have "swaps 0 b us
                    (pdqsort_loop env lessFn (mid + 1) b limit' (mid - a \<ge> (b - a) div 8) ap us)"
              by (rule less [OF d2])
            with xu show ?thesis
              unfolding pdqsort_loop_left [OF big lim pv' na pf True] us_def
              by (rule swaps_trans [rotated])
          next
            case f: False
            define us where "us = pdqsort_loop env lessFn (mid + 1) b limit' True True zs"
            have "swaps 0 b zs us" unfolding us_def by (rule less [OF d2])
            with xz have xu: "swaps 0 b xs us" by (rule swaps_trans [rotated])
            have "swaps 0 mid us
                    (pdqsort_loop env lessFn a mid limit' (b - mid \<ge> (b - a) div 8) ap us)"
              by (rule less [OF d1])
            then have "swaps 0 b us
                    (pdqsort_loop env lessFn a mid limit' (b - mid \<ge> (b - a) div 8) ap us)"
              using m by (intro swaps_mono [of 0 mid _ _ 0 b]) simp_all
            with xu show ?thesis
              unfolding pdqsort_loop_right [OF big lim pv' na pf f] us_def
              by (rule swaps_trans [rotated])
          qed
        qed
      qed
    qed
  qed
qed

lemma sort_Slice_swaps: "swaps 0 (length xs) xs (sort_Slice env lessFn xs)"
  unfolding sort_Slice_def pdqsort_func_def Let_def by (rule pdqsort_loop_swaps)

lemma sort_Slice_set: "set (sort_Slice env lessFn xs) = set xs"
  using sort_Slice_swaps [of xs env lessFn] by (rule swaps_set) simp

lemma sort_Slice_length: "length (sort_Slice env lessFn xs) = length xs"
  using sort_Slice_swaps [of xs env lessFn] by (rule swaps_length)

lemma sort_Slice_small:
  "length xs \<le> 12 \<Longrightarrow> sort_Slice env lessFn xs = insertionSort_func lessFn 0 (length xs) xs"
  by (simp add: sort_Slice_def pdqsort_func_def Let_def pdqsort_loop_small)

lemma uniform_swaps_map:
  assumes "uniform R a b xs" and "b \<le> length xs" and "swaps a b xs ys"
  shows "map R ys = map R xs"
  using assms(3,2)
proof (rule swaps_map)
  fix i j
  assume "a \<le> i" "i < b" "a \<le> j" "j < b"
  then show "R (xs ! i) = R (xs ! j)"
    using assms(1) by (auto simp: uniform_def)
qed

lemma holds_swaps_map:
  assumes "\<forall>i < b. R (xs ! i)" and "b \<le> length xs" and "swaps 0 b xs ys"
  shows "map R ys = map R xs"
  using assms(3,2)
proof (rule swaps_map)
  fix i j
  assume "i < b" "j < b"
  then show "R (xs ! i) = R (xs ! j)"
    using assms(1) by simp
qed

lemma map_nth_eq: "map R ys = map R xs \<Longrightarrow> i < length xs \<Longrightarrow> R (ys ! i) = R (xs ! i)"
  by (metis length_map nth_map)

lemma uniform_cong:
  assumes "map R ys = map R xs" and "b \<le> length xs"
  shows "uniform R a b ys = uniform R a b xs"
proof -
  have "R (ys ! i) = R (xs ! i)" if "i < b" for i
    using map_nth_eq [OF assms(1), of i] that assms(2) by simp
  then show ?thesis by (auto simp: uniform_def)
qed

lemma uniform_sub: "uniform R a b xs \<Longrightarrow> a \<le> a' \<Longrightarrow> b' \<le> b \<Longrightarrow> uniform R a' b' xs"
  by (auto simp: uniform_def)

lemma partialInsertionSort_scan_none:
  "(\<forall>t. i \<le> t \<and> t < b \<longrightarrow> \<not> R (xs ! t)) \<Longrightarrow> i \<le> b \<Longrightarrow>
   partialInsertionSort_scan (less_holds R) b xs i = b"
proof (induction "b - i" arbitrary: i)
  case 0
  then show ?case by (subst partialInsertionSort_scan.simps) simp
next
  case (Suc d)
  then have "i < b" "\<not> R (xs ! i)" by auto
  moreover have "partialInsertionSort_scan (less_holds R) b xs (i + 1) = b"
    using Suc.hyps(1) [of "i + 1"] Suc.hyps(2) Suc.prems by auto
  ultimately show ?case
    by (subst partialInsertionSort_scan.simps) (simp add: less_holds_def)
qed

lemma partialInsertionSort_func_none:
  assumes "\<forall>t. a \<le> t \<and> t < b \<longrightarrow> \<not> R (xs ! t)" and "a < b"
  shows "partialInsertionSort_func (less_holds R) a b xs = (xs, True)"
proof -
  have "partialInsertionSort_scan (less_holds R) b xs (a + 1) = b"
    using assms by (intro partialInsertionSort_scan_none) auto
  then show ?thesis
    by (simp add: partialInsertionSort_func_def numeral_eq_Suc Let_def)
qed

lemma pdqsort_pivot_uniform:
  assumes "pdqsort_pivot env (less_holds R) a b limit wasBalanced wasPartitioned xs =
           (ys, limit', pivot, isSorted)"
    and "12 < b - a" and "b \<le> length xs" and "uniform R a b xs"
  shows "map R ys = map R xs"
proof -
  define xs1 where "xs1 = (if \<not> wasBalanced then breakPatterns_func env a b xs else xs)"
  define p where "p = choosePivot_func (less_holds R) xs1 a b"
  define xs2 where "xs2 = (if snd p = decreasingHint then reverseRange_func a b xs1 else xs1)"
  define r where "r = (if wasBalanced \<and> wasPartitioned \<and>
                          (if snd p = decreasingHint then increasingHint else snd p) = increasingHint
                       then partialInsertionSort_func (less_holds R) a b xs2 else (xs2, False))"
  have e: "fst (pdqsort_pivot env (less_holds R) a b limit wasBalanced wasPartitioned xs) = fst r"
    unfolding pdqsort_pivot_def r_def xs2_def p_def xs1_def
    by (simp add: Let_def split: prod.splits)
  have ab: "a < b" "a \<le> b" using assms(2) by simp_all
  have s1: "swaps a b xs xs1"
    unfolding xs1_def using breakPatterns_func_swaps [OF ab(2), of xs env]
    by (auto intro: swaps_refl)
  have m1: "map R xs1 = map R xs"
    using assms(4,3) s1 by (rule uniform_swaps_map)
  have l1: "length xs1 = length xs" using s1 by (rule swaps_length)
  have u1: "uniform R a b xs1" using uniform_cong [OF m1 assms(3)] assms(4) by simp
  have s2: "swaps a b xs1 xs2"
    unfolding xs2_def using reverseRange_func_swaps [of a b xs1]
    by (auto intro: swaps_refl)
  have m2: "map R xs2 = map R xs1"
    using u1 _ s2 by (rule uniform_swaps_map) (simp add: l1 assms(3))
  have l2: "length xs2 = length xs" using swaps_length [OF s2] l1 by simp
  have u2: "uniform R a b xs2" using uniform_cong [OF m2, of b a] u1 l1 assms(3) by simp
  have m3: "map R (fst r) = map R xs2"
  proof (cases "\<forall>i < b. R (xs2 ! i)")
    case True
    have "swaps 0 b xs2 (fst r)"
      unfolding r_def using partialInsertionSort_func_swaps [OF ab(1), of xs2 "less_holds R"]
      by (auto intro: swaps_refl)
    with True show ?thesis
      by (intro holds_swaps_map [of b R xs2]) (simp_all add: l2 assms(3))
  next
    case False
    with u2 have "\<forall>t. a \<le> t \<and> t < b \<longrightarrow> \<not> R (xs2 ! t)" by (auto simp: uniform_def)
    from partialInsertionSort_func_none [OF this ab(1)]
    show ?thesis by (simp add: r_def)
  qed
  have "ys = fst r" using e assms(1) by simp
  then show ?thesis using m1 m2 m3 by simp
qed

lemma pdqsort_loop_uniform:
  "b \<le> length xs \<Longrightarrow> uniform R a b xs \<Longrightarrow>
   map R (pdqsort_loop env (less_holds R) a b limit wasBalanced wasPartitioned xs) = map R xs"
proof (induction "b - a" arbitrary: a b limit wasBalanced wasPartitioned xs rule: less_induct)
  case less
  note len = less.prems(1) and uni = less.prems(2)
  show ?case
  proof (cases "b - a \<le> 12")
    case True
    then show ?thesis
      using uniform_swaps_map [OF uni len insertionSort_func_swaps [of a b xs "less_holds R"]]
      by (simp add: pdqsort_loop_small)
  next
    case False
    then have big: "12 < b - a" by simp
    then have ab: "a < b" by simp
    show ?thesis
    proof (cases "limit = 0")
      case True
      then show ?thesis
        using uniform_swaps_map [OF uni len heapSort_func_swaps [of a b xs "less_holds R"]] big
        by (simp add: pdqsort_loop_heap)
    next
      case lim: False
      obtain ys limit' pivot isSorted where
        pv: "pdqsort_pivot env (less_holds R) a b limit wasBalanced wasPartitioned xs =
             (ys, limit', pivot, isSorted)"
        by (metis prod_cases4)
      from pdqsort_pivot_swaps [OF pv big]
      have ys: "swaps 0 b xs ys" and p: "a \<le> pivot" "pivot < b" by simp_all
      have my: "map R ys = map R xs" using pv big len uni by (rule pdqsort_pivot_uniform)
      have ly: "length ys = length xs" using ys by (rule swaps_length)
      have uy: "uniform R a b ys" using uniform_cong [OF my len] uni by simp
      have leny: "b \<le> length ys" using len ly by simp
      show ?thesis
      proof (cases isSorted)
        case True
        with pv have "pdqsort_pivot env (less_holds R) a b limit wasBalanced wasPartitioned xs =
             (ys, limit', pivot, True)" by simp
        from pdqsort_loop_sorted [OF big lim this] my show ?thesis by simp
      next
        case ns: False
        with pv have pv': "pdqsort_pivot env (less_holds R) a b limit wasBalanced wasPartitioned xs =
             (ys, limit', pivot, False)" by simp
        show ?thesis
        proof (cases "a > 0 \<and> \<not> less_holds R ys (a - 1) pivot")
          case True
          obtain zs mid where pe: "partitionEqual_func (less_holds R) a b pivot ys = (zs, mid)"
            by (cases "partitionEqual_func (less_holds R) a b pivot ys")
          from partitionEqual_func_swaps [OF ab p, of ys "less_holds R"]
          have z: "swaps a b ys zs" and m: "a < mid" by (simp_all add: pe)
          have mz: "map R zs = map R ys" using uy leny z by (rule uniform_swaps_map)
          have lz: "b \<le> length zs" using swaps_length [OF z] leny by simp
          have uz: "uniform R mid b zs"
            using uniform_cong [OF mz leny, of a] uy m by (auto intro: uniform_sub)
          have "b - mid < b - a" using m ab by simp
          from less.hyps [OF this lz uz]
          have "map R (pdqsort_loop env (less_holds R) mid b limit' wasBalanced wasPartitioned zs) =
                map R zs" .
          then show ?thesis
            using True pdqsort_loop_equal [OF big lim pv' _ _ pe] mz my by simp
        next
          case False
          then have na: "a = 0 \<or> less_holds R ys (a - 1) pivot" by auto
          obtain zs mid ap where pf: "partition_func (less_holds R) a b pivot ys = (zs, mid, ap)"
            by (metis prod_cases3)
          from partition_func_swaps [OF ab p, of ys "less_holds R"]
          have z: "swaps a b ys zs" and m: "a \<le> mid" "mid < b"
            by (simp_all add: pf)
          have mz: "map R zs = map R ys" using uy leny z by (rule uniform_swaps_map)
          have lz: "b \<le> length zs" using swaps_length [OF z] leny by simp
          have uz: "uniform R a b zs" using uniform_cong [OF mz leny, of a] uy by simp
          have d1: "mid - a < b - a" and d2: "b - (mid + 1) < b - a" using m by simp_all
          show ?thesis
          proof (cases "mid - a < b - mid")
            case True
            define us where "us = pdqsort_loop env (less_holds R) a mid limit' True True zs"
            have mu: "map R us = map R zs"
              unfolding us_def using lz m uz
              by (intro less.hyps [OF d1]) (auto intro: uniform_sub)
            have lu: "b \<le> length us" using mu lz by (metis length_map)
            have uu: "uniform R (mid + 1) b us"
              using uniform_cong [OF mu lz, of a] uz m by (auto intro: uniform_sub)
            have "map R (pdqsort_loop env (less_holds R) (mid + 1) b limit'
                    (mid - a \<ge> (b - a) div 8) ap us) = map R us"
              using lu uu by (rule less.hyps [OF d2])
            then show ?thesis
              unfolding pdqsort_loop_left [OF big lim pv' na pf True] us_def [symmetric]
              using mu mz my by simp
          next
            case f: False
            define us where "us = pdqsort_loop env (less_holds R) (mid + 1) b limit' True True zs"
            have mu: "map R us = map R zs"
              unfolding us_def using lz m uz
              by (intro less.hyps [OF d2]) (auto intro: uniform_sub)
            have lu: "mid \<le> length us" using mu lz m by (metis length_map less_or_eq_imp_le order_trans)
            have uu: "uniform R a mid us"
              using uniform_cong [OF mu lz, of a] uz m by (auto intro: uniform_sub)
            have "map R (pdqsort_loop env (less_holds R) a mid limit'
                    (b - mid \<ge> (b - a) div 8) ap us) = map R us"
              using lu uu by (rule less.hyps [OF d1])
            then show ?thesis
              unfolding pdqsort_loop_right [OF big lim pv' na pf f] us_def [symmetric]
              using mu mz my by simp
          qed
        qed
      qed
    qed
  qed
qed

lemma insertionSort_inner_stay:
  "\<not> R (xs ! j) \<Longrightarrow>
   insertionSort_inner (less_holds R) a j xs = xs"
  by (subst insertionSort_inner.simps) (simp add: less_holds_def)

lemma swap_adjacent:
  assumes "Suc k < length xs"
  shows "swap xs (Suc k) k = take k xs @ [xs ! Suc k, xs ! k] @ drop (Suc (Suc k)) xs"
proof -
  define a c where "a = take k xs" and "c = drop (Suc (Suc k)) xs"
  have la: "length a = k" using assms by (simp add: a_def)
  have "xs = take k xs @ xs ! k # drop (Suc k) xs"
    using assms by (simp add: id_take_nth_drop [symmetric])
  also have "drop (Suc k) xs = xs ! Suc k # drop (Suc (Suc k)) xs"
    using assms by (simp add: Cons_nth_drop_Suc)
  finally have xs: "xs = a @ [xs ! k, xs ! Suc k] @ c"
    by (simp add: a_def c_def)
  have "swap (a @ [x, y] @ c) (Suc k) k = a @ [y, x] @ c" for x y
    using la by (simp add: swap_def list_update_append nth_append)
  from this [of "xs ! k" "xs ! Suc k"] xs show ?thesis
    by (simp add: a_def c_def)
qed

lemma insertionSort_inner_front:
  "j < length xs \<Longrightarrow> R (xs ! j) \<Longrightarrow>
   insertionSort_inner (less_holds R) 0 j xs = xs ! j # take j xs @ drop (Suc j) xs"
proof (induction j arbitrary: xs)
  case 0
  then show ?case
    by (subst insertionSort_inner.simps) (cases xs; simp)
next
  case (Suc k)
  let ?ys = "swap xs (Suc k) k"
  have ys: "?ys = take k xs @ [xs ! Suc k, xs ! k] @ drop (Suc (Suc k)) xs"
    using Suc.prems by (simp add: swap_adjacent)
  have k: "k < length xs" using Suc.prems by simp
  have nk: "?ys ! k = xs ! Suc k"
    using k by (simp add: ys nth_append)
  have tk: "take k ?ys = take k xs"
    using k by (simp add: ys)
  have dk: "drop (Suc k) ?ys = xs ! k # drop (Suc (Suc k)) xs"
    using k by (simp add: ys)
  have "insertionSort_inner (less_holds R) 0 (Suc k) xs =
        insertionSort_inner (less_holds R) 0 k ?ys"
    using Suc.prems by (subst insertionSort_inner.simps) (simp add: less_holds_def)
  also have "\<dots> = ?ys ! k # take k ?ys @ drop (Suc k) ?ys"
    using Suc.IH [of ?ys] k Suc.prems nk by simp
  also have "\<dots> = xs ! Suc k # take (Suc k) xs @ drop (Suc (Suc k)) xs"
    using k by (simp add: nk tk dk take_Suc_conv_app_nth)
  finally show ?case .
qed

lemma length_inserted [simp]: "length (inserted R i xs) = length xs"
proof -
  have "length (filter R (take i xs)) +
        length (filter (\<lambda>s. \<not> R s) (take i xs)) =
        length (take i xs)"
    using sum_length_filter_compl [of R "take i xs"]
    by simp
  then show ?thesis by (simp add: inserted_def)
qed

lemma inserted_split:
  "i \<le> length xs \<Longrightarrow>
   \<exists>pre. length pre = i \<and> inserted R i xs = pre @ drop i xs \<and>
     pre = rev (filter R (take i xs)) @
           filter (\<lambda>s. \<not> R s) (take i xs)"
proof -
  have "length (filter R (take i xs)) +
        length (filter (\<lambda>s. \<not> R s) (take i xs)) =
        length (take i xs)"
    using sum_length_filter_compl [of R "take i xs"]
    by simp
  moreover assume "i \<le> length xs"
  ultimately show ?thesis by (simp add: inserted_def)
qed

lemma inserted_step:
  assumes "i < length xs"
  shows "insertionSort_inner (less_holds R) 0 i (inserted R i xs) = inserted R (Suc i) xs"
proof -
  from inserted_split [of i xs R] assms obtain pre where
    len: "length pre = i" and ins: "inserted R i xs = pre @ drop i xs" and
    pre: "pre = rev (filter R (take i xs)) @
           filter (\<lambda>s. \<not> R s) (take i xs)"
    by auto
  have at: "inserted R i xs ! i = xs ! i"
    using assms len by (simp add: ins nth_append)
  have tk: "take (Suc i) xs = take i xs @ [xs ! i]"
    using assms by (simp add: take_Suc_conv_app_nth)
  have dr: "drop i xs = xs ! i # drop (Suc i) xs"
    using assms by (simp add: Cons_nth_drop_Suc)
  show ?thesis
  proof (cases "R (xs ! i)")
    case True
    have "insertionSort_inner (less_holds R) 0 i (inserted R i xs) =
          inserted R i xs ! i # take i (inserted R i xs) @ drop (Suc i) (inserted R i xs)"
      using insertionSort_inner_front [of i "inserted R i xs" R] assms True at by simp
    also have "\<dots> = xs ! i # pre @ drop (Suc i) xs"
      using len unfolding at unfolding ins dr by simp
    also have "\<dots> = inserted R (Suc i) xs"
      using True by (simp add: inserted_def tk pre)
    finally show ?thesis .
  next
    case False
    have "insertionSort_inner (less_holds R) 0 i (inserted R i xs) = inserted R i xs"
      using insertionSort_inner_stay [of R "inserted R i xs" i 0] False at by simp
    also have "\<dots> = inserted R (Suc i) xs"
      using False by (simp add: inserted_def tk dr)
    finally show ?thesis .
  qed
qed

lemma insertionSort_outer_inserted:
  "i \<le> length xs \<Longrightarrow>
   insertionSort_outer (less_holds R) 0 (length xs) i (inserted R i xs) =
     inserted R (length xs) xs"
proof (induction "length xs - i" arbitrary: i)
  case 0
  then show ?case
    by (subst insertionSort_outer.simps) simp
next
  case (Suc d)
  then have lt: "i < length xs" by simp
  have "insertionSort_outer (less_holds R) 0 (length xs) i (inserted R i xs) =
        insertionSort_outer (less_holds R) 0 (length xs) (Suc i) (inserted R (Suc i) xs)"
    using lt by (subst insertionSort_outer.simps) (simp add: inserted_step)
  also have "\<dots> = inserted R (length xs) xs"
    using Suc.hyps(1) [of "Suc i"] Suc.hyps(2) lt by simp
  finally show ?case .
qed

lemma inserted_one: "inserted R (Suc 0) xs = xs"
  by (cases xs) (simp_all add: inserted_def)

lemma insertionSort_func_holds:
  "insertionSort_func (less_holds R) 0 (length xs) xs =
     rev (filter R xs) @
     filter (\<lambda>s. \<not> R s) xs"
proof (cases xs)
  case Nil
  then show ?thesis
    unfolding insertionSort_func_def by (subst insertionSort_outer.simps) simp
next
  case (Cons x xs')
  then have "Suc 0 \<le> length xs" by simp
  from insertionSort_outer_inserted [OF this, of R]
  have "insertionSort_outer (less_holds R) 0 (length xs) (Suc 0) xs =
        inserted R (length xs) xs"
    unfolding inserted_one .
  then show ?thesis
    unfolding insertionSort_func_def by (simp add: inserted_def)
qed

lemma holds_first_append:
  "(\<forall>x \<in> set us. R x) \<Longrightarrow> (\<forall>x \<in> set vs. \<not> R x) \<Longrightarrow>
   holds_first R (length (us @ vs)) (us @ vs)"
  unfolding holds_first_def
proof (intro allI impI)
  fix i j
  assume u: "\<forall>x \<in> set us. R x" and v: "\<forall>x \<in> set vs. \<not> R x"
    and ij: "i < j \<and> j < length (us @ vs) \<and> R ((us @ vs) ! j)"
  have "j < length us"
  proof (rule ccontr)
    assume "\<not> j < length us"
    then have "(us @ vs) ! j = vs ! (j - length us)" "j - length us < length vs"
      using ij by (auto simp: nth_append)
    with v ij show False by (metis nth_mem)
  qed
  with ij have "(us @ vs) ! i = us ! i" "i < length us" by (simp_all add: nth_append)
  with u show "R ((us @ vs) ! i)" by (metis nth_mem)
qed

lemma insertionSort_func_holds_first:
  "holds_first R (length xs) (insertionSort_func (less_holds R) 0 (length xs) xs)"
proof -
  have "holds_first R (length (rev (filter R xs) @ filter (\<lambda>s. \<not> R s) xs))
          (rev (filter R xs) @ filter (\<lambda>s. \<not> R s) xs)"
    by (rule holds_first_append) simp_all
  moreover have "length (rev (filter R xs) @ filter (\<lambda>s. \<not> R s) xs) = length xs"
    using sum_length_filter_compl [of R xs] by simp
  ultimately show ?thesis by (simp add: insertionSort_func_holds)
qed

lemma holds_first_filter:
  "holds_first R (length xs) xs \<Longrightarrow> xs = filter R xs @ filter (\<lambda>x. \<not> R x) xs"
proof (induction xs)
  case Nil
  show ?case by simp
next
  case (Cons x xs)
  have t: "holds_first R (length xs) xs"
    unfolding holds_first_def
  proof (intro allI impI)
    fix i j assume "i < j \<and> j < length xs \<and> R (xs ! j)"
    then have "Suc i < Suc j \<and> Suc j < length (x # xs) \<and> R ((x # xs) ! Suc j)" by simp
    with Cons.prems have "R ((x # xs) ! Suc i)" unfolding holds_first_def by blast
    then show "R (xs ! i)" by simp
  qed
  show ?case
  proof (cases "R x")
    case True
    with Cons.IH [OF t] show ?thesis by simp
  next
    case False
    have "\<not> R y" if "y \<in> set xs" for y
    proof
      assume r: "R y"
      from that obtain j where j: "j < length xs" "xs ! j = y" by (auto simp: in_set_conv_nth)
      then have "0 < Suc j \<and> Suc j < length (x # xs) \<and> R ((x # xs) ! Suc j)" using r by simp
      with Cons.prems have "R ((x # xs) ! 0)" unfolding holds_first_def by blast
      with False show False by simp
    qed
    then have "filter R xs = []" "filter (\<lambda>x. \<not> R x) xs = xs" by (simp_all add: filter_empty_conv)
    with False show ?thesis by simp
  qed
qed

lemma holds_first_cong:
  "map R ys = map R xs \<Longrightarrow> n \<le> length xs \<Longrightarrow> holds_first R n ys = holds_first R n xs"
proof -
  assume m: "map R ys = map R xs" and n: "n \<le> length xs"
  have "R (ys ! i) = R (xs ! i)" if "i < n" for i
    using map_nth_eq [OF m, of i] that n by simp
  then show ?thesis unfolding holds_first_def by (metis (no_types, lifting) less_trans)
qed

lemma partition_left_holds:
  "i \<le> t \<Longrightarrow> t < partition_left (less_holds R) a xs i j \<Longrightarrow> R (xs ! t)"
proof (induction "less_holds R" a xs i j rule: partition_left.induct)
  case (1 a xs i j)
  show ?case
  proof (cases "i \<le> j \<and> less_holds R xs i a")
    case True
    then have e: "partition_left (less_holds R) a xs i j = partition_left (less_holds R) a xs (i + 1) j"
      by (subst partition_left.simps) simp
    show ?thesis
    proof (cases "t = i")
      case True
      with \<open>i \<le> j \<and> less_holds R xs i a\<close> show ?thesis by (simp add: less_holds_def)
    next
      case False
      with 1(2) have "i + 1 \<le> t" by simp
      from 1(1) [OF True this] 1(3) show ?thesis unfolding e by simp
    qed
  next
    case False
    then have "partition_left (less_holds R) a xs i j = i"
      by (subst partition_left.simps) auto
    with 1(2,3) show ?thesis by simp
  qed
qed

lemma partition_left_stop:
  "partition_left (less_holds R) a xs i j \<le> j \<Longrightarrow>
   \<not> R (xs ! partition_left (less_holds R) a xs i j)"
proof (induction "less_holds R" a xs i j rule: partition_left.induct)
  case (1 a xs i j)
  show ?case
  proof (cases "i \<le> j \<and> less_holds R xs i a")
    case True
    then have e: "partition_left (less_holds R) a xs i j = partition_left (less_holds R) a xs (i + 1) j"
      by (subst partition_left.simps) simp
    from 1(1) [OF True] 1(2) show ?thesis unfolding e by simp
  next
    case False
    then have e: "partition_left (less_holds R) a xs i j = i"
      by (subst partition_left.simps) auto
    with 1(2) False show ?thesis by (simp add: less_holds_def)
  qed
qed

lemma partition_right_holds:
  "partition_right (less_holds R) a xs i j < t \<Longrightarrow> t \<le> j \<Longrightarrow> \<not> R (xs ! t)"
proof (induction "less_holds R" a xs i j rule: partition_right.induct)
  case (1 a xs i j)
  show ?case
  proof (cases "i \<le> j \<and> \<not> less_holds R xs j a \<and> 0 < j")
    case True
    then have e: "partition_right (less_holds R) a xs i j = partition_right (less_holds R) a xs i (j - 1)"
      by (subst partition_right.simps) simp
    show ?thesis
    proof (cases "t = j")
      case True
      with \<open>i \<le> j \<and> \<not> less_holds R xs j a \<and> 0 < j\<close> show ?thesis by (simp add: less_holds_def)
    next
      case False
      with 1(3) have "t \<le> j - 1" by simp
      from 1(1) [OF True _ this] 1(2) show ?thesis unfolding e by simp
    qed
  next
    case False
    then have "partition_right (less_holds R) a xs i j = j"
      by (subst partition_right.simps) auto
    with 1(2,3) show ?thesis by simp
  qed
qed

lemma partition_right_stop:
  "1 \<le> i \<Longrightarrow> i \<le> partition_right (less_holds R) a xs i j \<Longrightarrow>
   R (xs ! partition_right (less_holds R) a xs i j)"
proof (induction "less_holds R" a xs i j rule: partition_right.induct)
  case (1 a xs i j)
  show ?case
  proof (cases "i \<le> j \<and> \<not> less_holds R xs j a \<and> 0 < j")
    case True
    then have e: "partition_right (less_holds R) a xs i j = partition_right (less_holds R) a xs i (j - 1)"
      by (subst partition_right.simps) simp
    from 1(1) [OF True 1(2)] 1(3) show ?thesis unfolding e by simp
  next
    case False
    then have e: "partition_right (less_holds R) a xs i j = j"
      by (subst partition_right.simps) auto
    with 1(2,3) False show ?thesis by (auto simp: less_holds_def)
  qed
qed

lemma nth_swap:
  "i < length xs \<Longrightarrow> j < length xs \<Longrightarrow>
   swap xs i j ! t = (if t = i then xs ! j else if t = j then xs ! i else xs ! t)"
  by (auto simp: swap_def nth_list_update)

lemma partition_loop_holds:
  assumes "a < i" and "j < b" and "b \<le> length xs"
    and "\<forall>t. a < t \<and> t < i \<longrightarrow> R (xs ! t)"
    and "\<forall>t. j < t \<and> t < b \<longrightarrow> \<not> R (xs ! t)"
  shows "(\<forall>t. a < t \<and> t \<le> snd (partition_loop (less_holds R) a xs i j) \<longrightarrow>
            R (fst (partition_loop (less_holds R) a xs i j) ! t)) \<and>
         (\<forall>t. snd (partition_loop (less_holds R) a xs i j) < t \<and> t < b \<longrightarrow>
            \<not> R (fst (partition_loop (less_holds R) a xs i j) ! t))"
  using assms
proof (induction "less_holds R" a xs i j rule: partition_loop.induct)
  case (1 a xs i j)
  define i' where "i' = partition_left (less_holds R) a xs i j"
  define j' where "j' = partition_right (less_holds R) a xs i' j"
  have i': "i \<le> i'" using partition_left_ge [of i "less_holds R" a xs j] by (simp add: i'_def)
  have j': "j' \<le> j" using partition_right_le [of "less_holds R" a xs i' j] by (simp add: j'_def)
  have lo: "R (xs ! t)" if "a < t" "t < i'" for t
  proof (cases "t < i")
    case True
    with that 1(5) show ?thesis by simp
  next
    case False
    then have "i \<le> t" by simp
    then show ?thesis using that(2) unfolding i'_def by (rule partition_left_holds)
  qed
  have hi: "\<not> R (xs ! t)" if "j' < t" "t < b" for t
  proof (cases "j < t")
    case True
    with that 1(6) show ?thesis by simp
  next
    case False
    then have "t \<le> j" by simp
    with that(1) show ?thesis unfolding j'_def by (rule partition_right_holds)
  qed
  show ?case
  proof (cases "i' > j'")
    case True
    have "partition_loop (less_holds R) a xs i j = (xs, j')"
      using True by (subst partition_loop.simps) (simp add: Let_def i'_def j'_def)
    then show ?thesis using lo hi True by auto
  next
    case False
    have e: "partition_loop (less_holds R) a xs i j =
             partition_loop (less_holds R) a (swap xs i' j') (i' + 1) (j' - 1)"
      using False by (subst partition_loop.simps) (simp add: Let_def i'_def j'_def)
    have len: "i' < length xs" "j' < length xs" using False j' 1(3,4) by simp_all
    have ni: "\<not> R (xs ! i')"
      using False j' partition_left_stop [of R a xs i j] by (simp add: i'_def)
    have rj: "R (xs ! j')"
      using False i' 1(2) partition_right_stop [of i' R a xs j] by (simp add: j'_def)
    have p1: "a < i' + 1" "j' - 1 < b" "b \<le> length (swap xs i' j')"
      using i' j' 1(2,3,4) by simp_all
    have p2: "\<forall>t. a < t \<and> t < i' + 1 \<longrightarrow> R (swap xs i' j' ! t)"
      using lo rj False by (auto simp: nth_swap [OF len])
    have p3: "\<forall>t. j' - 1 < t \<and> t < b \<longrightarrow> \<not> R (swap xs i' j' ! t)"
      using hi ni False by (auto simp: nth_swap [OF len])
    from 1(1) [OF i'_def j'_def False p1 p2 p3]
    show ?thesis unfolding e .
  qed
qed

lemma partition_func_holds:
  assumes "a < b" and "b \<le> length xs" and "a \<le> pivot" and "pivot < b"
    and "partition_func (less_holds R) a b pivot xs = (zs, mid, ap)"
  shows "(\<forall>t. a \<le> t \<and> t < mid \<longrightarrow> R (zs ! t)) \<and> (\<forall>t. mid < t \<and> t < b \<longrightarrow> \<not> R (zs ! t))"
proof -
  define ys where "ys = swap xs a pivot"
  define i' where "i' = partition_left (less_holds R) a ys (a + 1) (b - 1)"
  define j' where "j' = partition_right (less_holds R) a ys i' (b - 1)"
  have ly: "length ys = length xs" by (simp add: ys_def)
  have i': "a + 1 \<le> i'"
    using partition_left_ge [of "a + 1" "less_holds R" a ys "b - 1"] by (simp add: i'_def)
  have j': "a \<le> j'" "j' < b"
    using partition_right_ge [OF i', of "b - 1" "less_holds R" a ys]
      partition_right_le [of "less_holds R" a ys i' "b - 1"] assms(1)
    by (simp_all add: j'_def)
  have lo: "R (ys ! t)" if "a < t" "t < i'" for t
    using that partition_left_holds [of "a + 1" t R a ys "b - 1"] by (simp add: i'_def)
  have hi: "\<not> R (ys ! t)" if "j' < t" "t < b" for t
    using that partition_right_holds [of R a ys i' "b - 1" t] by (simp add: j'_def)
  show ?thesis
  proof (cases "i' > j'")
    case True
    have "partition_func (less_holds R) a b pivot xs = (swap ys j' a, j', True)"
      using True unfolding partition_func_def j'_def i'_def ys_def by (simp add: Let_def)
    with assms(5) have z: "zs = swap ys j' a" "mid = j'" by auto
    have len: "j' < length ys" "a < length ys" using j' assms(1,2) ly by simp_all
    show ?thesis
      unfolding z using lo hi True j' by (auto simp: nth_swap [OF len])
  next
    case False
    define r where "r = partition_loop (less_holds R) a (swap ys i' j') (i' + 1) (j' - 1)"
    have "partition_func (less_holds R) a b pivot xs = (swap (fst r) (snd r) a, snd r, False)"
      using False unfolding partition_func_def r_def j'_def i'_def ys_def
      by (simp add: Let_def split: prod.splits)
    with assms(5) have z: "zs = swap (fst r) (snd r) a" "mid = snd r" by auto
    have len: "i' < length ys" "j' < length ys" using False j' assms(2) ly by simp_all
    have ni: "\<not> R (ys ! i')"
      using False j' partition_left_stop [of R a ys "a + 1" "b - 1"] by (simp add: i'_def)
    have rj: "R (ys ! j')"
      using False i' partition_right_stop [of i' R a ys "b - 1"] by (simp add: j'_def)
    have p1: "a < i' + 1" "j' - 1 < b" "b \<le> length (swap ys i' j')"
      using i' j' assms(2) ly by simp_all
    have p2: "\<forall>t. a < t \<and> t < i' + 1 \<longrightarrow> R (swap ys i' j' ! t)"
      using lo rj False by (auto simp: nth_swap [OF len])
    have p3: "\<forall>t. j' - 1 < t \<and> t < b \<longrightarrow> \<not> R (swap ys i' j' ! t)"
      using hi ni False by (auto simp: nth_swap [OF len])
    from partition_loop_holds [OF p1 p2 p3]
    have l: "\<forall>t. a < t \<and> t \<le> snd r \<longrightarrow> R (fst r ! t)"
            "\<forall>t. snd r < t \<and> t < b \<longrightarrow> \<not> R (fst r ! t)"
      by (simp_all add: r_def)
    have p: "a + 1 \<le> i' + 1" "a \<le> j' - 1" "j' - 1 < b" using False i' j' by auto
    from partition_loop_swaps [OF p, of "swap ys i' j'" "less_holds R" a]
    have b: "a \<le> snd r" "snd r < b" "length (fst r) = length xs"
      using swaps_length [of "a + 1" b "swap ys i' j'" "fst r"] ly j' by (auto simp: r_def)
    have len2: "snd r < length (fst r)" "a < length (fst r)" using b assms(1,2) by simp_all
    show ?thesis
      unfolding z using l b by (auto simp: nth_swap [OF len2])
  qed
qed

lemma partialInsertionSort_scan_holds:
  "i \<le> t \<Longrightarrow> t < partialInsertionSort_scan (less_holds R) b xs i \<Longrightarrow> \<not> R (xs ! t)"
proof (induction "less_holds R" b xs i rule: partialInsertionSort_scan.induct)
  case (1 b xs i)
  show ?case
  proof (cases "i < b \<and> \<not> less_holds R xs i (i - 1)")
    case True
    then have e: "partialInsertionSort_scan (less_holds R) b xs i =
                  partialInsertionSort_scan (less_holds R) b xs (i + 1)"
      by (subst partialInsertionSort_scan.simps) simp
    show ?thesis
    proof (cases "t = i")
      case True
      with \<open>i < b \<and> \<not> less_holds R xs i (i - 1)\<close> show ?thesis by (simp add: less_holds_def)
    next
      case False
      with 1(2) have "i + 1 \<le> t" by simp
      from 1(1) [OF True this] 1(3) show ?thesis unfolding e by simp
    qed
  next
    case False
    then have "partialInsertionSort_scan (less_holds R) b xs i = i"
      by (subst partialInsertionSort_scan.simps) auto
    with 1(2,3) show ?thesis by simp
  qed
qed

lemma partialInsertionSort_scan_stop:
  "partialInsertionSort_scan (less_holds R) b xs i < b \<Longrightarrow>
   R (xs ! partialInsertionSort_scan (less_holds R) b xs i)"
proof (induction "less_holds R" b xs i rule: partialInsertionSort_scan.induct)
  case (1 b xs i)
  show ?case
  proof (cases "i < b \<and> \<not> less_holds R xs i (i - 1)")
    case True
    then have e: "partialInsertionSort_scan (less_holds R) b xs i =
                  partialInsertionSort_scan (less_holds R) b xs (i + 1)"
      by (subst partialInsertionSort_scan.simps) simp
    from 1(1) [OF True] 1(2) show ?thesis unfolding e by simp
  next
    case False
    then have e: "partialInsertionSort_scan (less_holds R) b xs i = i"
      by (subst partialInsertionSort_scan.simps) auto
    with 1(2) False show ?thesis by (simp add: less_holds_def)
  qed
qed

lemma partialInsertionSort_left_inner:
  "partialInsertionSort_left lessFn j xs = insertionSort_inner lessFn 0 j xs"
proof (induction lessFn j xs rule: partialInsertionSort_left.induct)
  case (1 lessFn j xs)
  show ?case
  proof (cases "j \<ge> 1 \<and> lessFn xs j (j - 1)")
    case True
    then have "1 \<le> j" "\<not> \<not> lessFn xs j (j - 1)" by auto
    from 1 [OF this] True show ?thesis
      by (subst partialInsertionSort_left.simps, subst insertionSort_inner.simps) auto
  next
    case False
    then show ?thesis
      by (subst partialInsertionSort_left.simps, subst insertionSort_inner.simps) auto
  qed
qed

lemma partialInsertionSort_loop_holds:
  "1 \<le> i \<Longrightarrow> i \<le> b \<Longrightarrow> b \<le> length xs \<Longrightarrow> holds_first R i xs \<Longrightarrow>
   partialInsertionSort_loop (less_holds R) 0 b n i xs = (ys, True) \<Longrightarrow> holds_first R b ys"
proof (induction n arbitrary: i xs)
  case 0
  then show ?case by simp
next
  case (Suc n)
  define i' where "i' = partialInsertionSort_scan (less_holds R) b xs i"
  have i': "1 \<le> i'" "i' \<le> b" "i \<le> i'"
    using partialInsertionSort_scan_ge [of i "less_holds R" b xs]
      partialInsertionSort_scan_le [OF Suc.prems(2), of "less_holds R" xs] Suc.prems(1)
    by (simp_all add: i'_def)
  have hf: "holds_first R i' xs"
    unfolding holds_first_def
  proof (intro allI impI)
    fix s t assume st: "s < t \<and> t < i' \<and> R (xs ! t)"
    have "t < i"
    proof (rule ccontr)
      assume "\<not> t < i"
      then have "i \<le> t" by simp
      from partialInsertionSort_scan_holds [OF this, of R b xs] st show False
        by (simp add: i'_def)
    qed
    with st Suc.prems(4) show "R (xs ! s)" unfolding holds_first_def by blast
  qed
  show ?case
  proof (cases "i' = b")
    case True
    then have "partialInsertionSort_loop (less_holds R) 0 b (Suc n) i xs = (xs, True)"
      by (simp add: Let_def i'_def)
    with Suc.prems(5) hf True show ?thesis by simp
  next
    case nb: False
    show ?thesis
    proof (cases "b < 50")
      case True
      then have "partialInsertionSort_loop (less_holds R) 0 b (Suc n) i xs = (xs, False)"
        using nb by (simp add: Let_def i'_def)
      with Suc.prems(5) show ?thesis by simp
    next
      case False
      define xs1 where "xs1 = swap xs i' (i' - 1)"
      define xs2 where "xs2 = (if i' - 0 \<ge> 2 then partialInsertionSort_left (less_holds R) (i' - 1) xs1 else xs1)"
      define xs3 where "xs3 = (if b - i' \<ge> 2 then partialInsertionSort_right (less_holds R) b (i' + 1) xs2 else xs2)"
      have lt: "i' < b" using nb i' by simp
      have len: "i' < length xs" "i' - 1 < length xs" using lt Suc.prems(3) by simp_all
      have ri: "R (xs ! i')"
        using partialInsertionSort_scan_stop [of R b xs i] lt by (simp add: i'_def)
      have l1: "length xs1 = length xs" by (simp add: xs1_def)
      have n1: "xs1 ! t = (if t = i' then xs ! (i' - 1) else if t = i' - 1 then xs ! i' else xs ! t)" for t
        unfolding xs1_def using nth_swap [OF len, of t] i' by auto
      have n2: "xs2 ! t = (if t = 0 then xs ! i' else xs ! (t - 1))" if "t < i'" for t
      proof (cases "i' \<ge> 2")
        case True
        have "xs2 = insertionSort_inner (less_holds R) 0 (i' - 1) xs1"
          using True by (simp add: xs2_def partialInsertionSort_left_inner)
        also have "\<dots> = xs1 ! (i' - 1) # take (i' - 1) xs1 @ drop (Suc (i' - 1)) xs1"
          using len l1 ri i' by (intro insertionSort_inner_front) (simp_all add: n1)
        finally have "xs2 = xs ! i' # take (i' - 1) xs1 @ drop (Suc (i' - 1)) xs1"
          using i' by (simp add: n1)
        then show ?thesis
          using that len l1 i' by (cases t) (auto simp: nth_append n1)
      next
        case False
        with i' that have "i' = 1" "t = 0" by simp_all
        then show ?thesis by (simp add: xs2_def n1)
      qed
      have n3: "xs3 ! t = xs2 ! t" if "t < i'" for t
      proof (cases "b - i' \<ge> 2")
        case True
        have "swaps (i' + 1 - 1) b xs2 (partialInsertionSort_right (less_holds R) b (i' + 1) xs2)"
          by (rule partialInsertionSort_right_swaps) simp
        then have "partialInsertionSort_right (less_holds R) b (i' + 1) xs2 ! t = xs2 ! t"
          using that by (intro swaps_outside [of "i' + 1 - 1" b xs2]) simp_all
        with True show ?thesis by (simp add: xs3_def)
      next
        case False
        then show ?thesis by (simp add: xs3_def)
      qed
      have hf3: "holds_first R i' xs3"
        unfolding holds_first_def
      proof (intro allI impI)
        fix s t assume st: "s < t \<and> t < i' \<and> R (xs3 ! t)"
        then have t1: "s < t" "t < i'" "R (xs3 ! t)" "0 < t" "s < i'" by auto
        have "xs3 ! t = xs ! (t - 1)" using n3 [OF t1(2)] n2 [OF t1(2)] t1(4) by simp
        with t1 have t: "R (xs ! (t - 1))" by simp
        have s3: "xs3 ! s = (if s = 0 then xs ! i' else xs ! (s - 1))"
          using n3 [OF t1(5)] n2 [OF t1(5)] by simp
        show "R (xs3 ! s)"
        proof (cases "s = 0")
          case True
          with ri s3 show ?thesis by simp
        next
          case False
          then have "s - 1 < t - 1 \<and> t - 1 < i' \<and> R (xs ! (t - 1))" using t1 t by auto
          with hf have "R (xs ! (s - 1))" unfolding holds_first_def by blast
          with False s3 show ?thesis by simp
        qed
      qed
      have "swaps 0 b xs xs1"
        unfolding xs1_def using lt i' by (intro swaps_swap) simp_all
      then have le1: "length xs1 = length xs" by (rule swaps_length)
      have "swaps 0 b xs1 xs2"
        unfolding xs2_def using lt partialInsertionSort_left_swaps [of "i' - 1" b xs1 "less_holds R"]
        by (auto intro: swaps_refl)
      then have le2: "length xs2 = length xs" using le1 swaps_length by fastforce
      have "swaps 0 b xs2 xs3"
        unfolding xs3_def
        using swaps_mono [OF partialInsertionSort_right_swaps [of "i' + 1" b xs2 "less_holds R"], of 0 b]
        by (auto intro: swaps_refl)
      then have le3: "b \<le> length xs3" using le2 swaps_length Suc.prems(3) by fastforce
      have e: "partialInsertionSort_loop (less_holds R) 0 b (Suc n) i xs =
               partialInsertionSort_loop (less_holds R) 0 b n i' xs3"
        using False nb by (simp add: Let_def i'_def xs1_def xs2_def xs3_def)
      show ?thesis
        using Suc.IH [OF i'(1,2) le3 hf3] Suc.prems(5) unfolding e by simp
    qed
  qed
qed

lemma partialInsertionSort_func_holds:
  assumes "0 < b" and "b \<le> length xs"
    and "partialInsertionSort_func (less_holds R) 0 b xs = (ys, True)"
  shows "holds_first R b ys"
proof -
  have "holds_first R 1 xs" by (simp add: holds_first_def)
  moreover have "(1::nat) \<le> 1" "1 \<le> b" using assms(1) by simp_all
  ultimately show ?thesis
    using assms(2,3) unfolding partialInsertionSort_func_def
    by (intro partialInsertionSort_loop_holds [of 1 b xs R 5 ys]) simp_all
qed

lemma pdqsort_pivot_sorted:
  assumes "pdqsort_pivot env (less_holds R) 0 b limit True True xs = (ys, limit', pivot, True)"
    and "12 < b" and "b \<le> length xs"
  shows "holds_first R b ys"
proof -
  define p where "p = choosePivot_func (less_holds R) xs 0 b"
  define xs2 where "xs2 = (if snd p = decreasingHint then reverseRange_func 0 b xs else xs)"
  define r where "r = (if (if snd p = decreasingHint then increasingHint else snd p) = increasingHint
                       then partialInsertionSort_func (less_holds R) 0 b xs2 else (xs2, False))"
  have e: "pdqsort_pivot env (less_holds R) 0 b limit True True xs =
           (fst r, limit, (if snd p = decreasingHint then (b - 1) - (fst p - 0) else fst p), snd r)"
    unfolding pdqsort_pivot_def r_def xs2_def p_def
    by (simp add: Let_def split: prod.splits)
  have "swaps 0 b xs xs2"
    unfolding xs2_def using reverseRange_func_swaps [of 0 b xs]
    by (auto intro: swaps_refl)
  then have l2: "b \<le> length xs2" using swaps_length assms(3) by fastforce
  have "r = (ys, True)" using e assms(1) by (metis prod.collapse prod.inject)
  then have "partialInsertionSort_func (less_holds R) 0 b xs2 = (ys, True)"
    by (auto simp: r_def split: if_splits)
  with l2 assms(2) show ?thesis
    by (intro partialInsertionSort_func_holds [of b xs2 R ys]) simp_all
qed

lemma pdqsort_loop_top:
  assumes "12 < b" and "b \<le> length xs" and "limit \<noteq> 0"
  shows "holds_first R b (pdqsort_loop env (less_holds R) 0 b limit True True xs)"
proof -
  have big: "12 < b - 0" using assms(1) by simp
  obtain ys limit' pivot isSorted where
    pv: "pdqsort_pivot env (less_holds R) 0 b limit True True xs = (ys, limit', pivot, isSorted)"
    by (metis prod_cases4)
  from pdqsort_pivot_swaps [OF pv big]
  have ys: "swaps 0 b xs ys" and p: "0 \<le> pivot" "pivot < b" by simp_all
  have ly: "b \<le> length ys" using swaps_length [OF ys] assms(2) by simp
  show ?thesis
  proof (cases isSorted)
    case True
    with pv have pv': "pdqsort_pivot env (less_holds R) 0 b limit True True xs =
         (ys, limit', pivot, True)" by simp
    from pdqsort_loop_sorted [OF big assms(3) pv'] pdqsort_pivot_sorted [OF pv' assms(1,2)]
    show ?thesis by simp
  next
    case False
    with pv have pv': "pdqsort_pivot env (less_holds R) 0 b limit True True xs =
         (ys, limit', pivot, False)" by simp
    obtain zs mid ap where pf: "partition_func (less_holds R) 0 b pivot ys = (zs, mid, ap)"
      by (metis prod_cases3)
    have ab: "0 < b" using assms(1) by simp
    from partition_func_swaps [OF ab p, of ys "less_holds R"]
    have z: "swaps 0 b ys zs" and m: "mid < b" by (simp_all add: pf)
    have lz: "b \<le> length zs" using swaps_length [OF z] ly by simp
    from partition_func_holds [OF ab ly p pf]
    have lo: "\<forall>t. t < mid \<longrightarrow> R (zs ! t)" and hi: "\<forall>t. mid < t \<and> t < b \<longrightarrow> \<not> R (zs ! t)"
      by simp_all
    have hz: "holds_first R b zs"
      unfolding holds_first_def
    proof (intro allI impI)
      fix i j assume ij: "i < j \<and> j < b \<and> R (zs ! j)"
      with hi have "j \<le> mid" by (meson not_le_imp_less)
      with ij lo show "R (zs ! i)" by simp
    qed
    have u1: "uniform R 0 mid zs" using lo by (simp add: uniform_def)
    have u2: "uniform R (mid + 1) b zs" using hi by (simp add: uniform_def)
    have na: "(0::nat) = 0 \<or> less_holds R ys (0 - 1) pivot" by simp
    have lm: "mid \<le> length zs" using m lz by simp
    show ?thesis
    proof (cases "mid - 0 < b - mid")
      case True
      define us where "us = pdqsort_loop env (less_holds R) 0 mid limit' True True zs"
      have mu: "map R us = map R zs"
        unfolding us_def using lm u1 by (rule pdqsort_loop_uniform)
      have lu: "b \<le> length us" using mu lz by (metis length_map)
      have uu: "uniform R (mid + 1) b us" using uniform_cong [OF mu lz] u2 by simp
      have "map R (pdqsort_loop env (less_holds R) (mid + 1) b limit'
              (mid - 0 \<ge> (b - 0) div 8) ap us) = map R us"
        using lu uu by (rule pdqsort_loop_uniform)
      then have "map R (pdqsort_loop env (less_holds R) 0 b limit True True xs) = map R zs"
        unfolding pdqsort_loop_left [OF big assms(3) pv' na pf True] us_def [symmetric]
        using mu by simp
      from holds_first_cong [OF this lz] hz show ?thesis by simp
    next
      case f: False
      define us where "us = pdqsort_loop env (less_holds R) (mid + 1) b limit' True True zs"
      have mu: "map R us = map R zs"
        unfolding us_def using lz u2 by (rule pdqsort_loop_uniform)
      have lu: "mid \<le> length us" using mu lm by (metis length_map)
      have uu: "uniform R 0 mid us" using uniform_cong [OF mu lm] u1 by simp
      have "map R (pdqsort_loop env (less_holds R) 0 mid limit'
              (b - mid \<ge> (b - 0) div 8) ap us) = map R us"
        using lu uu by (rule pdqsort_loop_uniform)
      then have "map R (pdqsort_loop env (less_holds R) 0 b limit True True xs) = map R zs"
        unfolding pdqsort_loop_right [OF big assms(3) pv' na pf f] us_def [symmetric]
        using mu by simp
      from holds_first_cong [OF this lz] hz show ?thesis by simp
    qed
  qed
qed

lemma sort_Slice_holds_first:
  "holds_first R (length xs) (sort_Slice env (less_holds R) xs)"
proof (cases "length xs \<le> 12")
  case True
  then show ?thesis
    by (simp add: sort_Slice_small insertionSort_func_holds_first)
next
  case False
  then have "bitlen_nat (length xs) \<noteq> 0" by (subst bitlen_nat.simps) auto
  with False show ?thesis
    unfolding sort_Slice_def pdqsort_func_def Let_def
    by (intro pdqsort_loop_top) simp_all
qed

lemma GetStacks_three:
  "GetStacks env_three ''o1'' state_demo =
     (Inr (sort_Slice env_three (less_RUNNING env_three)
             [stack_of ''c1'' ''RUNNING'', stack_of ''c2'' ''ERROR'', stack_of ''c3'' ''RUNNING'']),
      cache_Set env_demo ''CACHE_KEY_THANOS_URLo1'' ''http://thanos.example.com:9090''
        (perform env_demo (ServicesGet 0 ''lma'' ''thanos-query-frontend'')
          (perform env_demo (GetClientFromClusterId ''c1'')
            (perform env_demo (OrganizationGet ''o1'') state_demo))))"
proof -
  have u: "getThanosUrl env_three ''o1'' state_demo =
     (Inr ''http://thanos.example.com:9090'',
      cache_Set env_demo ''CACHE_KEY_THANOS_URLo1'' ''http://thanos.example.com:9090''
        (perform env_demo (ServicesGet 0 ''lma'' ''thanos-query-frontend'')
          (perform env_demo (GetClientFromClusterId ''c1'')
            (perform env_demo (OrganizationGet ''o1'') state_demo))))"
    by (simp add: getThanosUrl_def getThanosUrl_service_def env_three_def env_demo_def
          state_demo_def cache_Get_def cache_Set_def perform_def prefix_THANOS_URL_def
          Itoa_def digits.simps Let_def)
  show ?thesis
    unfolding GetStacks_def u
    by (simp add: env_three_def env_demo_def stack_utilization_def getStackMemoryDisk_def
          stack_of_def Let_def)
qed

lemma less_RUNNING_holds:
  "less_RUNNING env = less_holds (\<lambda>s. DashboardStack.Status s = StackStatus_RUNNING env)"
  by (intro ext) (simp add: less_RUNNING_def less_holds_def)

lemma sort_Slice_RUNNING_small:
  "length out \<le> 12 \<Longrightarrow>
   sort_Slice env (less_RUNNING env) out =
     rev (filter (\<lambda>s. DashboardStack.Status s = StackStatus_RUNNING env) out) @
     filter (\<lambda>s. DashboardStack.Status s \<noteq> StackStatus_RUNNING env) out"
  by (simp add: sort_Slice_small less_RUNNING_holds insertionSort_func_holds)

lemma sort_Slice_RUNNING_first: "RUNNING_first env (sort_Slice env (less_RUNNING env) pre)"
proof -
  let ?R = "\<lambda>s. DashboardStack.Status s = StackStatus_RUNNING env"
  have "holds_first ?R (length (sort_Slice env (less_holds ?R) pre)) (sort_Slice env (less_holds ?R) pre)"
    using sort_Slice_holds_first [of ?R pre env] by (simp add: sort_Slice_length)
  from holds_first_filter [OF this] show ?thesis
    by (simp add: RUNNING_first_def less_RUNNING_holds)
qed

lemma GetStacks_Inr:
  assumes "GetStacks env organizationId st = (Inr out, st')"
  shows "\<exists>clusters stackMemoryDisk stackCpu pre.
           clusterRepo_FetchByOrganizationId env organizationId = Inr clusters \<and>
           GetStacks_loop env stackMemoryDisk stackCpu [] clusters = Inr pre \<and>
           out = sort_Slice env (less_RUNNING env) pre"
  using assms unfolding GetStacks_def by (auto split: sum.splits prod.splits)

text \<open>
  C2, as the code has it. \<^verbatim>\<open>GetStacks\<close> sorts the summaries with \<^verbatim>\<open>sort.Slice\<close> and a
  comparison that only asks whether the first of the two entries is running. Whatever
  the clusters and their number, the list returned has the entries of the unsorted
  list, and in it no entry that is not running stands before a running one. The order
  among the running entries, and among the others, is not that of the input in general.
\<close>

theorem GetStacks_RUNNING_first:
  assumes "GetStacks env organizationId st = (Inr out, st')"
  shows "\<exists>clusters stackMemoryDisk stackCpu pre.
           clusterRepo_FetchByOrganizationId env organizationId = Inr clusters \<and>
           GetStacks_loop env stackMemoryDisk stackCpu [] clusters = Inr pre \<and>
           length out = length pre \<and> set out = set pre \<and>
           RUNNING_first env out \<and>
           (\<forall>i j. i < j \<and> j < length out \<and>
                  DashboardStack.Status (out ! j) = StackStatus_RUNNING env \<longrightarrow>
                  DashboardStack.Status (out ! i) = StackStatus_RUNNING env)"
proof -
  let ?R = "\<lambda>s. DashboardStack.Status s = StackStatus_RUNNING env"
  from GetStacks_Inr [OF assms] obtain clusters stackMemoryDisk stackCpu pre where
    c: "clusterRepo_FetchByOrganizationId env organizationId = Inr clusters" and
    l: "GetStacks_loop env stackMemoryDisk stackCpu [] clusters = Inr pre" and
    o: "out = sort_Slice env (less_RUNNING env) pre"
    by blast
  have "holds_first ?R (length pre) out"
    unfolding o less_RUNNING_holds by (rule sort_Slice_holds_first)
  then have "\<forall>i j. i < j \<and> j < length out \<and> ?R (out ! j) \<longrightarrow> ?R (out ! i)"
    unfolding holds_first_def o by (simp add: sort_Slice_length)
  moreover have "RUNNING_first env out" unfolding o by (rule sort_Slice_RUNNING_first)
  moreover have "length out = length pre" "set out = set pre"
    unfolding o by (rule sort_Slice_length, rule sort_Slice_set)
  ultimately show ?thesis using c l by blast
qed

theorem GetStacks_RUNNING_first_witness:
  "fst (GetStacks env_three ''o1'' state_demo) =
     Inr [stack_of ''c3'' ''RUNNING'', stack_of ''c1'' ''RUNNING'', stack_of ''c2'' ''ERROR''] \<and>
   RUNNING_first env_three
     [stack_of ''c3'' ''RUNNING'', stack_of ''c1'' ''RUNNING'', stack_of ''c2'' ''ERROR'']"
proof -
  have s: "sort_Slice env_three (less_RUNNING env_three)
     [stack_of ''c1'' ''RUNNING'', stack_of ''c2'' ''ERROR'', stack_of ''c3'' ''RUNNING''] =
   [stack_of ''c3'' ''RUNNING'', stack_of ''c1'' ''RUNNING'', stack_of ''c2'' ''ERROR'']"
    by (simp add: sort_Slice_RUNNING_small stack_of_def env_three_def env_demo_def)
  obtain r st' where g: "GetStacks env_three ''o1'' state_demo = (r, st')"
    by (cases "GetStacks env_three ''o1'' state_demo")
  with GetStacks_three have r: "r = Inr [stack_of ''c3'' ''RUNNING'', stack_of ''c1'' ''RUNNING'',
      stack_of ''c2'' ''ERROR'']"
    by (simp add: s)
  from GetStacks_RUNNING_first [OF g [unfolded r]]
  have "RUNNING_first env_three
     [stack_of ''c3'' ''RUNNING'', stack_of ''c1'' ''RUNNING'', stack_of ''c2'' ''ERROR'']"
    by blast
  with g r show ?thesis by simp
qed

text \<open>
  The scenario of the specification, through \<^verbatim>\<open>GetStacks\<close>: the clusters \<open>c1\<close> (running),
  \<open>c2\<close> (error) and \<open>c3\<close> (running) come back as \<open>c3\<close>, \<open>c1\<close>, \<open>c2\<close>, which is not the
  stable order \<open>c1\<close>, \<open>c3\<close>, \<open>c2\<close>.
\<close>

theorem GetStacks_not_stable:
  "fst (GetStacks env_three ''o1'' state_demo) =
     Inr [stack_of ''c3'' ''RUNNING'', stack_of ''c1'' ''RUNNING'', stack_of ''c2'' ''ERROR''] \<and>
   stable_RUNNING_first env_three
     [stack_of ''c1'' ''RUNNING'', stack_of ''c2'' ''ERROR'', stack_of ''c3'' ''RUNNING''] =
     [stack_of ''c1'' ''RUNNING'', stack_of ''c3'' ''RUNNING'', stack_of ''c2'' ''ERROR''] \<and>
   fst (GetStacks env_three ''o1'' state_demo) \<noteq>
     Inr (stable_RUNNING_first env_three
            [stack_of ''c1'' ''RUNNING'', stack_of ''c2'' ''ERROR'', stack_of ''c3'' ''RUNNING''])"
proof -
  have s: "sort_Slice env_three (less_RUNNING env_three)
     [stack_of ''c1'' ''RUNNING'', stack_of ''c2'' ''ERROR'', stack_of ''c3'' ''RUNNING''] =
   [stack_of ''c3'' ''RUNNING'', stack_of ''c1'' ''RUNNING'', stack_of ''c2'' ''ERROR'']"
    by (simp add: sort_Slice_RUNNING_small stack_of_def env_three_def env_demo_def)
  show ?thesis
    unfolding GetStacks_three s
    by (simp add: stable_RUNNING_first_def stack_of_def env_three_def env_demo_def)
qed

lemma lastValue_Nil [simp]: "lastValue d name clusterId [] = d"
  by (simp add: lastValue_def matching_def)

lemma lastValue_Cons:
  "lastValue d name clusterId (val # rest) =
     (if TacoCluster (Metric val) = clusterId \<and> Metric.Name (Metric val) = name
      then lastValue (fst (Atoi (snd (Value val)))) name clusterId rest
      else lastValue d name clusterId rest)"
  by (simp add: lastValue_def matching_def split: list.splits)

lemma getStackMemoryDisk_loop_last:
  "getStackMemoryDisk_loop clusterId (free, machine, used, capacity) result =
     (lastValue free ''node_memory_MemFree_bytes'' clusterId result,
      lastValue machine ''machine_memory_bytes'' clusterId result,
      lastValue used ''kubelet_volume_stats_used_bytes'' clusterId result,
      lastValue capacity ''kubelet_volume_stats_capacity_bytes'' clusterId result)"
proof (induction result arbitrary: free machine used capacity)
  case Nil
  show ?case by simp
next
  case (Cons val rest)
  show ?case
    by (simp add: lastValue_Cons Cons.IH Let_def)
qed

lemma getStackCpu_find:
  "getStackCpu env result clusterId =
     (case find (\<lambda>v. TacoCluster (Metric v) = clusterId) result of
        None \<Rightarrow> []
      | Some v \<Rightarrow>
          (case strconv_ParseFloat32 env (snd (Value v)) of
             Inr s \<Rightarrow> Sprintf_f 2 s
           | Inl err \<Rightarrow> []))"
  by (induction result) simp_all

text \<open>
  C3, as the code has it. \<^verbatim>\<open>getStackCpu\<close> joins on the cluster identifier against the
  first sample of the cluster (it returns at the first match, also when that sample
  does not parse). \<^verbatim>\<open>getStackMemoryDisk\<close> reads the whole result set and joins each
  of its four metrics against the last sample of the cluster with that metric name.
  Both are total functions: duplicates raise nothing.
\<close>

theorem stack_joins:
  "getStackCpu env stackCpu clusterId =
     (case find (\<lambda>v. TacoCluster (Metric v) = clusterId) stackCpu of
        None \<Rightarrow> []
      | Some v \<Rightarrow>
          (case strconv_ParseFloat32 env (snd (Value v)) of
             Inr s \<Rightarrow> Sprintf_f 2 s
           | Inl err \<Rightarrow> [])) \<and>
   getStackMemoryDisk_loop clusterId (0, 0, 0, 0) result =
     (lastValue 0 ''node_memory_MemFree_bytes'' clusterId result,
      lastValue 0 ''machine_memory_bytes'' clusterId result,
      lastValue 0 ''kubelet_volume_stats_used_bytes'' clusterId result,
      lastValue 0 ''kubelet_volume_stats_capacity_bytes'' clusterId result)"
  by (simp add: getStackCpu_find getStackMemoryDisk_loop_last)

lemma Atoi_2: "Atoi ''2'' = (2, None)"
  by (simp add: Atoi_def ParseUint_def maxUint64_def digit_of_def maxInt64_def minInt64_def)

lemma Atoi_10: "Atoi ''10'' = (10, None)"
  by (simp add: Atoi_def ParseUint_def maxUint64_def digit_of_def maxInt64_def minInt64_def)

lemma Atoi_20: "Atoi ''20'' = (20, None)"
  by (simp add: Atoi_def ParseUint_def maxUint64_def digit_of_def maxInt64_def minInt64_def)

lemma floor_rat_numeral: "\<lfloor>numeral a / numeral b :: rat\<rfloor> = numeral a div numeral b"
  using floor_divide_of_int_eq [of "numeral a" "numeral b", where ?'a = rat] by simp

lemma ceiling_rat_numeral: "\<lceil>numeral a / numeral b :: rat\<rceil> = - (- numeral a div numeral b)"
  using floor_divide_of_int_eq [of "- numeral a" "numeral b", where ?'a = rat]
  by (simp add: ceiling_def)

lemmas float_eval =
  float32_def fl_def round_mag_def ilog2_def bitlen_nat.simps binary32_def binary64_def pow2_def
  round_half_even_def Let_def floor_rat_numeral ceiling_rat_numeral

lemmas Sprintf_eval =
  round_half_even_def Let_def floor_rat_numeral digits.simps pad0_def

lemma float32_1: "float32 1 = Finite False 1"
  by (simp add: float_eval)

lemma float32_100: "float32 100 = Finite False 100"
  by (simp add: float_eval)

text \<open>
  2 bytes free of 10: \<open>2/10\<close> rounds to \<open>13421773/2\<^sup>2\<^sup>6\<close>, one minus that to
  \<open>13421773/2\<^sup>2\<^sup>4 = 0.80000001\<dots>\<close>, and the product with 100 to 80.
\<close>

lemma memory_2_10: "Sprintf_f 2 (memory_percent 2 10) = ''80.00''"
proof -
  have a: "float32 2 = Finite False 2" by (simp add: float_eval)
  have b: "float32 10 = Finite False 10" by (simp add: float_eval)
  have q: "f_quo binary32 (Finite False 2) (Finite False 10) = Finite False (13421773 / 67108864)"
    by (simp add: float_eval)
  have m: "f_sub binary32 (Finite False 1) (Finite False (13421773 / 67108864)) =
           Finite False (13421773 / 16777216)"
    by (simp add: float_eval)
  have r: "f_mul binary32 (Finite False (13421773 / 16777216)) (Finite False 100) = Finite False 80"
    by (simp add: float_eval)
  have "memory_percent 2 10 = Finite False 80"
    unfolding memory_percent_def a b float32_1 float32_100 q m r ..
  then show ?thesis by (simp add: Sprintf_eval)
qed

lemma memory_2_20: "Sprintf_f 2 (memory_percent 2 20) = ''90.00''"
proof -
  have a: "float32 2 = Finite False 2" by (simp add: float_eval)
  have b: "float32 20 = Finite False 20" by (simp add: float_eval)
  have q: "f_quo binary32 (Finite False 2) (Finite False 20) = Finite False (13421773 / 134217728)"
    by (simp add: float_eval)
  have m: "f_sub binary32 (Finite False 1) (Finite False (13421773 / 134217728)) =
           Finite False (7549747 / 8388608)"
    by (simp add: float_eval)
  have r: "f_mul binary32 (Finite False (7549747 / 8388608)) (Finite False 100) = Finite False 90"
    by (simp add: float_eval)
  have "memory_percent 2 20 = Finite False 90"
    unfolding memory_percent_def a b float32_1 float32_100 q m r ..
  then show ?thesis by (simp add: Sprintf_eval)
qed

theorem stack_joins_witness:
  "getStackCpu env_demo [sample [] ''c1'' ''abc'', sample [] ''c1'' ''1.5''] ''c1'' = [] \<and>
   getStackMemoryDisk_loop ''c1'' (0, 0, 0, 0)
     [sample ''node_memory_MemFree_bytes'' ''c1'' ''2'',
      sample ''machine_memory_bytes'' ''c1'' ''10'',
      sample ''machine_memory_bytes'' ''c1'' ''20''] = (2, 20, 0, 0)"
  using stack_joins [of env_demo "[sample [] ''c1'' ''abc'', sample [] ''c1'' ''1.5'']" "''c1''"
      "[sample ''node_memory_MemFree_bytes'' ''c1'' ''2'',
        sample ''machine_memory_bytes'' ''c1'' ''10'',
        sample ''machine_memory_bytes'' ''c1'' ''20'']"]
  by (simp add: sample_def env_demo_def ParseFloat32_plain_def digit_of_def
        lastValue_Cons Atoi_2 Atoi_10 Atoi_20)

text \<open>
  Two samples of \<^verbatim>\<open>machine_memory_bytes\<close> for one cluster, 10 and then 20, with 2 bytes
  free: the code reports 90.00 (the last sample), the first match would give 80.00.
\<close>

theorem getStackMemoryDisk_last_match_wins:
  "getStackMemoryDisk
     [sample ''node_memory_MemFree_bytes'' ''c1'' ''2'',
      sample ''machine_memory_bytes'' ''c1'' ''10'',
      sample ''machine_memory_bytes'' ''c1'' ''20''] ''c1'' = (''90.00'', []) \<and>
   getStackMemoryDisk_firstMatch
     [sample ''node_memory_MemFree_bytes'' ''c1'' ''2'',
      sample ''machine_memory_bytes'' ''c1'' ''10'',
      sample ''machine_memory_bytes'' ''c1'' ''20''] ''c1'' = (''80.00'', [])"
proof -
  have "getStackMemoryDisk_loop ''c1'' (0, 0, 0, 0)
     [sample ''node_memory_MemFree_bytes'' ''c1'' ''2'',
      sample ''machine_memory_bytes'' ''c1'' ''10'',
      sample ''machine_memory_bytes'' ''c1'' ''20''] = (2, 20, 0, 0)"
    by (simp add: sample_def Atoi_2 Atoi_10 Atoi_20)
  then have a: "getStackMemoryDisk
     [sample ''node_memory_MemFree_bytes'' ''c1'' ''2'',
      sample ''machine_memory_bytes'' ''c1'' ''10'',
      sample ''machine_memory_bytes'' ''c1'' ''20''] ''c1'' = (''90.00'', [])"
    by (simp add: getStackMemoryDisk_def memory_2_20)
  have b: "getStackMemoryDisk_firstMatch
     [sample ''node_memory_MemFree_bytes'' ''c1'' ''2'',
      sample ''machine_memory_bytes'' ''c1'' ''10'',
      sample ''machine_memory_bytes'' ''c1'' ''20''] ''c1'' = (''80.00'', [])"
    by (simp add: getStackMemoryDisk_firstMatch_def firstValue_def matching_def sample_def
          Atoi_2 Atoi_10 memory_2_10)
  from a b show ?thesis by simp
qed

text \<open>
  C6, as the code has it. The memory percentage is emitted only if the total is
  positive, the disk percentage only if the capacity is positive, and each is the
  empty string otherwise. The value is computed in \<^verbatim>\<open>float32\<close>: the byte counts are
  converted to \<^verbatim>\<open>float32\<close>, and the division, the subtraction from 1 and the
  multiplication by 100 each round to \<^verbatim>\<open>float32\<close>; the string is that value with two
  digits after the point. The byte counts are those of the last sample of the cluster
  for each metric (0 when there is none or it does not parse).
\<close>

theorem getStackMemoryDisk_percent:
  "getStackMemoryDisk result clusterId =
     (let freeBytes = lastValue 0 ''node_memory_MemFree_bytes'' clusterId result;
          totalBytes = lastValue 0 ''machine_memory_bytes'' clusterId result;
          usedBytes = lastValue 0 ''kubelet_volume_stats_used_bytes'' clusterId result;
          capacityBytes = lastValue 0 ''kubelet_volume_stats_capacity_bytes'' clusterId result
      in (if totalBytes > 0
          then Sprintf_f 2
                 (f_mul binary32
                    (f_sub binary32 (float32 1)
                       (f_quo binary32 (float32 freeBytes) (float32 totalBytes)))
                    (float32 100))
          else [],
          if capacityBytes > 0
          then Sprintf_f 2
                 (f_mul binary32
                    (f_quo binary32 (float32 usedBytes) (float32 capacityBytes))
                    (float32 100))
          else []))"
  by (simp add: getStackMemoryDisk_def getStackMemoryDisk_loop_last Let_def
        memory_percent_def disk_percent_def)

theorem getStackMemoryDisk_percent_witness:
  "getStackMemoryDisk
     [sample ''node_memory_MemFree_bytes'' ''c1'' ''2'',
      sample ''machine_memory_bytes'' ''c1'' ''10''] ''c1'' = (''80.00'', [])"
  using getStackMemoryDisk_percent [of "[sample ''node_memory_MemFree_bytes'' ''c1'' ''2'',
      sample ''machine_memory_bytes'' ''c1'' ''10'']" "''c1''"] memory_2_10
  by (simp add: lastValue_Cons sample_def Atoi_2 Atoi_10 memory_percent_def [symmetric])


text \<open>
  With 3655446528 bytes free of 8589934592, \<open>(1 - free/total) * 100\<close> is
  57.445001\<dots>, whose two-decimal string is 57.45. In \<^verbatim>\<open>float32\<close> the quotient and the
  difference are exact, and the product with 100 rounds down to 57.444999\<dots>: the
  code reports 57.44.
\<close>

theorem getStackMemoryDisk_float32:
  "getStackMemoryDisk
     [sample ''node_memory_MemFree_bytes'' ''c1'' ''3655446528'',
      sample ''machine_memory_bytes'' ''c1'' ''8589934592''] ''c1'' = (''57.44'', []) \<and>
   two_decimal_string ((1 - 3655446528 / 8589934592) * 100) = ''57.45''"
proof -
  have f: "Atoi ''3655446528'' = (3655446528, None)"
    by (simp add: Atoi_def ParseUint_def maxUint64_def digit_of_def maxInt64_def minInt64_def)
  have m: "Atoi ''8589934592'' = (8589934592, None)"
    by (simp add: Atoi_def ParseUint_def maxUint64_def digit_of_def maxInt64_def minInt64_def)
  have l: "getStackMemoryDisk_loop ''c1'' (0, 0, 0, 0)
     [sample ''node_memory_MemFree_bytes'' ''c1'' ''3655446528'',
      sample ''machine_memory_bytes'' ''c1'' ''8589934592''] = (3655446528, 8589934592, 0, 0)"
    by (simp add: sample_def f m)
  have a: "float32 3655446528 = Finite False 3655446528" by (simp add: float_eval)
  have b: "float32 8589934592 = Finite False 8589934592" by (simp add: float_eval)
  have q: "f_quo binary32 (Finite False 3655446528) (Finite False 8589934592) =
           Finite False (892443 / 2097152)"
    by (simp add: float_eval)
  have m: "f_sub binary32 (Finite False 1) (Finite False (892443 / 2097152)) =
           Finite False (1204709 / 2097152)"
    by (simp add: float_eval)
  have r: "f_mul binary32 (Finite False (1204709 / 2097152)) (Finite False 100) =
           Finite False (7529431 / 131072)"
    by (simp add: float_eval)
  have "memory_percent 3655446528 8589934592 = Finite False (7529431 / 131072)"
    unfolding memory_percent_def a b float32_1 float32_100 q m r ..
  then have p: "Sprintf_f 2 (memory_percent 3655446528 8589934592) = ''57.44''"
    by (simp add: Sprintf_eval)
  have e: "two_decimal_string ((1 - 3655446528 / 8589934592) * 100) = ''57.45''"
    by (simp add: two_decimal_string_def Sprintf_eval)
  from l p e show ?thesis
    by (simp add: getStackMemoryDisk_def)
qed

lemma pow2_powi: "pow2 n = 2 powi n"
  by (simp add: pow2_def power_int_def inverse_eq_divide power_one_over [symmetric])

lemma pow2_pos [simp]: "0 < pow2 n"
  by (simp add: pow2_powi)

lemma pow2_nonzero [simp]: "pow2 n \<noteq> 0"
  by (simp add: pow2_def)

lemma pow2_add: "pow2 (m + n) = pow2 m * pow2 n"
  by (simp add: pow2_powi power_int_add)

lemma pow2_mono: "m \<le> n \<Longrightarrow> pow2 m \<le> pow2 n"
  by (simp add: pow2_powi power_int_increasing)

lemma pow2_le_imp_le: "pow2 m \<le> pow2 n \<Longrightarrow> m \<le> n"
proof (rule ccontr)
  assume le: "pow2 m \<le> pow2 n" and "\<not> m \<le> n"
  then have "n < m" by simp
  then have "pow2 n < pow2 m"
    by (simp add: pow2_powi power_int_strict_increasing)
  with le show False by simp
qed

lemma pow2_nat: "0 \<le> n \<Longrightarrow> pow2 n = of_int (2 ^ nat n)"
  by (simp add: pow2_def)

lemma pow2_neg_nat: "pow2 (- int b) = 1 / 2 ^ b"
  by (cases "b = 0") (simp_all add: pow2_def)

lemma ilog2_lower:
  assumes "0 < x"
  shows "pow2 (ilog2 x) \<le> x"
proof (cases "1 \<le> x")
  case True
  then have f: "0 < nat \<lfloor>x\<rfloor>" by simp
  have "pow2 (ilog2 x) = of_nat (2 ^ (bitlen_nat (nat \<lfloor>x\<rfloor>) - 1))"
    using True bitlen_nat_bounds [OF f]
    by (cases "bitlen_nat (nat \<lfloor>x\<rfloor>)") (simp_all add: ilog2_def pow2_def)
  also have "\<dots> \<le> of_nat (nat \<lfloor>x\<rfloor>)"
    using bitlen_nat_bounds [OF f] by (simp only: of_nat_le_iff)
  also have "\<dots> = of_int \<lfloor>x\<rfloor>" using True by simp
  also have "\<dots> \<le> x" by simp
  finally show ?thesis .
next
  case False
  then have x1: "x < 1" by simp
  define c where "c = \<lceil>1 / x\<rceil>"
  define n where "n = nat (c - 1)"
  have g: "1 < 1 / x" using assms x1 by simp
  have "of_int 1 < 1 / x" using g by (simp only: of_int_1)
  then have "1 < c" unfolding c_def by (rule iffD2 [OF less_ceiling_iff])
  then have n: "0 < n" "int n + 1 = c" by (simp_all add: n_def)
  have "1 / x \<le> of_int c" by (simp add: c_def)
  also have "\<dots> = of_nat (n + 1)" using n(2) by (metis of_int_of_nat_eq of_nat_Suc of_nat_1 of_nat_add)
  also have "\<dots> \<le> of_nat (2 ^ bitlen_nat n)"
    using bitlen_nat_bounds [OF n(1)] by (simp only: of_nat_le_iff) simp
  finally have "1 / x \<le> 2 ^ bitlen_nat n" by simp
  then have "1 / 2 ^ bitlen_nat n \<le> x"
    using assms by (simp add: field_simps)
  moreover have "ilog2 x = - int (bitlen_nat n)"
    using x1 by (simp add: ilog2_def n_def c_def)
  then have "pow2 (ilog2 x) = 1 / 2 ^ bitlen_nat n"
    by (simp only: pow2_neg_nat)
  ultimately show ?thesis by simp
qed

lemma round_half_even_bounds: "\<lfloor>y\<rfloor> \<le> round_half_even y \<and> round_half_even y \<le> \<lceil>y\<rceil>"
proof -
  have "\<lfloor>y\<rfloor> + 1 \<le> \<lceil>y\<rceil>" if "1 / 2 \<le> y - of_int \<lfloor>y\<rfloor>"
  proof -
    from that have "of_int \<lfloor>y\<rfloor> < y" by simp
    then show ?thesis by (simp add: less_ceiling_iff add1_zle_eq)
  qed
  then show ?thesis
    unfolding round_half_even_def Let_def
    using floor_le_ceiling [of y] by auto
qed

lemma round_half_even_le: "y \<le> of_int M \<Longrightarrow> round_half_even y \<le> M"
  using round_half_even_bounds [of y] by (meson ceiling_le order_trans)

lemma round_half_even_ge: "of_int M \<le> y \<Longrightarrow> M \<le> round_half_even y"
  using round_half_even_bounds [of y] by (meson le_floor_iff order_trans)

lemma round_mag_nonneg: "0 \<le> x \<Longrightarrow> 0 \<le> round_mag f x"
proof -
  assume x: "0 \<le> x"
  have "0 \<le> round_half_even (x / pow2 k)" for k
  proof -
    have "0 \<le> x / pow2 k" using x pow2_pos [of k] by (simp add: less_imp_le)
    then show ?thesis using round_half_even_ge [of 0 "x / pow2 k"] by simp
  qed
  then have "0 \<le> of_int (round_half_even (x / pow2 k)) * pow2 k" for k
    by (intro mult_nonneg_nonneg) (simp_all add: less_imp_le)
  then show ?thesis
    by (simp add: round_mag_def Let_def)
qed

lemma round_mag_le_pow2:
  assumes "0 \<le> x" and "x \<le> pow2 k" and "emin f \<le> k" and "1 \<le> precision f"
  shows "round_mag f x \<le> pow2 k"
proof (cases "x = 0")
  case True
  then show ?thesis by (simp add: round_mag_def less_imp_le)
next
  case False
  with assms(1) have pos: "0 < x" by simp
  define e where "e = max (ilog2 x) (emin f)"
  define q where "q = pow2 (e - int (precision f) + 1)"
  have "pow2 (ilog2 x) \<le> pow2 k"
    using ilog2_lower [OF pos] assms(2) by simp
  then have "ilog2 x \<le> k" by (rule pow2_le_imp_le)
  then have ek: "e \<le> k" using assms(3) by (simp add: e_def)
  define d where "d = k - e + int (precision f) - 1"
  have d0: "0 \<le> d" using ek assms(4) by (simp add: d_def)
  have split: "pow2 k = pow2 d * q"
    unfolding q_def pow2_add [symmetric] by (simp add: d_def)
  have "x / q \<le> pow2 k / q"
    using assms(2) by (simp add: q_def divide_right_mono less_imp_le)
  also have "\<dots> = of_int (2 ^ nat d)"
    using d0 by (simp add: split q_def pow2_nat)
  finally have "round_half_even (x / q) \<le> 2 ^ nat d"
    by (rule round_half_even_le)
  then have "of_int (round_half_even (x / q)) * q \<le> of_int (2 ^ nat d) * q"
    by (intro mult_right_mono) (simp_all add: q_def less_imp_le of_int_le_iff del: of_int_power)
  also have "\<dots> = pow2 k"
    using d0 by (simp add: split pow2_nat)
  finally show ?thesis
    using False by (simp add: round_mag_def Let_def e_def q_def)
qed

lemma round_mag_ge_pow2:
  assumes "pow2 k \<le> x" and "emin f \<le> k" and "1 \<le> precision f"
  shows "pow2 k \<le> round_mag f x"
proof -
  have pos: "0 < x" using assms(1) pow2_pos [of k] by linarith
  define e where "e = max (ilog2 x) (emin f)"
  define q where "q = pow2 (e - int (precision f) + 1)"
  have r: "round_mag f x = of_int (round_half_even (x / q)) * q"
    using pos by (simp add: round_mag_def Let_def e_def q_def)
  have qpos: "0 < q" by (simp add: q_def)
  show ?thesis
  proof (cases "e \<le> k")
    case True
    define d where "d = k - e + int (precision f) - 1"
    have d0: "0 \<le> d" using True assms(3) by (simp add: d_def)
    have split: "pow2 k = pow2 d * q"
      unfolding q_def pow2_add [symmetric] by (simp add: d_def)
    have "of_int (2 ^ nat d) = pow2 k / q"
      using d0 by (simp add: split q_def pow2_nat)
    also have "\<dots> \<le> x / q"
      using assms(1) qpos by (simp add: divide_right_mono less_imp_le)
    finally have "2 ^ nat d \<le> round_half_even (x / q)"
      by (rule round_half_even_ge)
    then have "of_int (2 ^ nat d) * q \<le> of_int (round_half_even (x / q)) * q"
      using qpos by (intro mult_right_mono) (simp_all add: less_imp_le of_int_le_iff del: of_int_power)
    moreover have "of_int (2 ^ nat d) * q = pow2 k"
      using d0 by (simp add: split pow2_nat)
    ultimately show ?thesis by (simp add: r)
  next
    case False
    then have e: "e = ilog2 x" "k \<le> e" using assms(2) by (simp_all add: e_def max_def split: if_splits)
    define d where "d = int (precision f) - 1"
    have d0: "0 \<le> d" using assms(3) by (simp add: d_def)
    have split: "pow2 e = pow2 d * q"
      unfolding q_def pow2_add [symmetric] by (simp add: d_def)
    have "of_int (2 ^ nat d) = pow2 e / q"
      using d0 by (simp add: split q_def pow2_nat)
    also have "\<dots> \<le> x / q"
      using ilog2_lower [OF pos] qpos by (simp add: e(1) divide_right_mono less_imp_le)
    finally have "2 ^ nat d \<le> round_half_even (x / q)"
      by (rule round_half_even_ge)
    then have "of_int (2 ^ nat d) * q \<le> of_int (round_half_even (x / q)) * q"
      using qpos by (intro mult_right_mono) (simp_all add: less_imp_le of_int_le_iff del: of_int_power)
    moreover have "of_int (2 ^ nat d) * q = pow2 e"
      using d0 by (simp add: split pow2_nat)
    ultimately have "pow2 e \<le> round_mag f x" by (simp add: r)
    with pow2_mono [OF e(2)] show ?thesis by linarith
  qed
qed
lemma fl_finite_upto:
  assumes "0 \<le> x" and "x \<le> pow2 k" and "emin f \<le> k" and "k \<le> emax f" and "1 \<le> precision f"
  shows "finite_upto k (fl f s x)"
proof -
  have le: "round_mag f x \<le> pow2 k"
    using assms by (intro round_mag_le_pow2)
  have "pow2 k < pow2 (emax f + 1)"
    using assms(4) by (simp add: pow2_powi power_int_strict_increasing)
  with le have "\<not> pow2 (emax f + 1) \<le> round_mag f x" by linarith
  with le round_mag_nonneg [OF assms(1), of f] show ?thesis
    by (simp add: fl_def finite_upto_def Let_def)
qed

lemma Atoi_range: "minInt64 \<le> fst (Atoi s) \<and> fst (Atoi s) \<le> maxInt64"
  by (auto simp: Atoi_def minInt64_def maxInt64_def Let_def
        split: list.splits option.splits if_splits prod.splits num_error.splits)

lemma lastValue_range:
  "minInt64 \<le> d \<Longrightarrow> d \<le> maxInt64 \<Longrightarrow>
   minInt64 \<le> lastValue d name clusterId result \<and> lastValue d name clusterId result \<le> maxInt64"
  using Atoi_range by (simp add: lastValue_def split: list.splits)

lemma float32_finite:
  assumes "minInt64 \<le> i" and "i \<le> maxInt64"
  shows "\<exists>y. float32 i = Finite (i < 0) y \<and> 0 \<le> y \<and> y \<le> pow2 63 \<and> (i \<noteq> 0 \<longrightarrow> 1 \<le> y)"
proof -
  have a: "(0::rat) \<le> of_int \<bar>i\<bar>" by simp
  have "\<bar>i\<bar> \<le> 2 ^ 63" using assms by (simp add: minInt64_def maxInt64_def)
  then have "(of_int \<bar>i\<bar> :: rat) \<le> of_int (2 ^ 63)" by (simp only: of_int_le_iff)
  then have b: "(of_int \<bar>i\<bar> :: rat) \<le> pow2 63" by (simp add: pow2_def)
  have fin: "finite_upto 63 (fl binary32 (i < 0) (of_int \<bar>i\<bar>))"
    using a b by (rule fl_finite_upto) (simp_all add: binary32_def)
  have one: "1 \<le> round_mag binary32 (of_int \<bar>i\<bar>)" if "i \<noteq> 0"
  proof -
    from that have "1 \<le> \<bar>i\<bar>" by simp
    then have "(of_int 1 :: rat) \<le> of_int \<bar>i\<bar>" by (simp only: of_int_le_iff)
    then have "pow2 0 \<le> (of_int \<bar>i\<bar> :: rat)" by (simp add: pow2_def)
    then have "pow2 0 \<le> round_mag binary32 (of_int \<bar>i\<bar>)"
      by (rule round_mag_ge_pow2) (simp_all add: binary32_def)
    then show ?thesis by (simp add: pow2_def)
  qed
  from fin one show ?thesis
    by (auto simp: float32_def finite_upto_def fl_def Let_def split: gofloat.splits if_splits)
qed

lemma memory_percent_finite:
  assumes "minInt64 \<le> free" "free \<le> maxInt64" "0 < machine" "machine \<le> maxInt64"
  shows "\<exists>s y. memory_percent free machine = Finite s y"
proof -
  from float32_finite [OF assms(1,2)] obtain x where
    x: "float32 free = Finite (free < 0) x" "0 \<le> x" "x \<le> pow2 63" by blast
  have "minInt64 \<le> machine" using assms(3) by (simp add: minInt64_def)
  from float32_finite [OF this assms(4)] assms(3) obtain y where
    y: "float32 machine = Finite False y" "1 \<le> y" by auto
  have "x / y \<le> x" using x(2) y(2) by (simp add: divide_le_eq mult_left_mono [of 1 y x, simplified] field_simps)
  then have "finite_upto 63 (fl binary32 (free < 0) (x / y))"
    using x y by (intro fl_finite_upto) (simp_all add: binary32_def)
  then obtain q where
    q: "f_quo binary32 (float32 free) (float32 machine) = Finite (free < 0) q" "0 \<le> q" "q \<le> pow2 63"
    using x y by (auto simp: finite_upto_def fl_def Let_def split: gofloat.splits if_splits)
  have one: "float32 1 = Finite False 1"
    using float32_finite [of 1]
    by (simp add: float32_def fl_def round_mag_def ilog2_def bitlen_nat.simps binary32_def
          pow2_def round_half_even_def Let_def)
  define d where "d = 1 - (if free < 0 then - q else q)"
  have dm: "\<bar>d\<bar> \<le> pow2 64"
  proof -
    have "\<bar>d\<bar> \<le> 1 + q" unfolding d_def using q(2) by (auto simp: abs_if)
    also have "\<dots> \<le> pow2 63 + pow2 63" using q(3) by (simp add: pow2_def)
    also have "\<dots> = pow2 64" by (simp add: pow2_def)
    finally show ?thesis .
  qed
  have "\<exists>s m. f_sub binary32 (float32 1) (f_quo binary32 (float32 free) (float32 machine)) = Finite s m \<and>
          0 \<le> m \<and> m \<le> pow2 64"
  proof (cases "d = 0")
    case True
    then show ?thesis
      by (auto simp: one q(1) d_def Let_def less_imp_le)
  next
    case False
    have "finite_upto 64 (fl binary32 (d < 0) \<bar>d\<bar>)"
      using dm by (intro fl_finite_upto) (simp_all add: binary32_def)
    with False show ?thesis
      by (auto simp: one q(1) d_def [symmetric] Let_def finite_upto_def split: gofloat.splits)
  qed
  then obtain s m where
    m: "f_sub binary32 (float32 1) (f_quo binary32 (float32 free) (float32 machine)) = Finite s m"
       "0 \<le> m" "m \<le> pow2 64" by blast
  have hundred: "float32 100 = Finite False 100"
    by (simp add: float32_def fl_def round_mag_def ilog2_def bitlen_nat.simps binary32_def
          pow2_def round_half_even_def Let_def)
  have "m * 100 \<le> pow2 64 * pow2 7"
    using m(2,3) by (intro mult_mono) (simp_all add: pow2_def)
  also have "\<dots> = pow2 71" by (simp add: pow2_add [symmetric])
  finally have "finite_upto 71 (fl binary32 (s \<noteq> False) (m * 100))"
    using m(2) by (intro fl_finite_upto) (simp_all add: binary32_def)
  then show ?thesis
    by (auto simp: memory_percent_def m(1) hundred finite_upto_def split: gofloat.splits)
qed

lemma disk_percent_finite:
  assumes "minInt64 \<le> used" "used \<le> maxInt64" "0 < capacity" "capacity \<le> maxInt64"
  shows "\<exists>s y. disk_percent used capacity = Finite s y"
proof -
  from float32_finite [OF assms(1,2)] obtain x where
    x: "float32 used = Finite (used < 0) x" "0 \<le> x" "x \<le> pow2 63" by blast
  have "minInt64 \<le> capacity" using assms(3) by (simp add: minInt64_def)
  from float32_finite [OF this assms(4)] assms(3) obtain y where
    y: "float32 capacity = Finite False y" "1 \<le> y" by auto
  have "x / y \<le> x" using x(2) y(2) by (simp add: divide_le_eq mult_left_mono [of 1 y x, simplified] field_simps)
  then have "finite_upto 63 (fl binary32 (used < 0) (x / y))"
    using x y by (intro fl_finite_upto) (simp_all add: binary32_def)
  then obtain q where
    q: "f_quo binary32 (float32 used) (float32 capacity) = Finite (used < 0) q" "0 \<le> q" "q \<le> pow2 63"
    using x y by (auto simp: finite_upto_def fl_def Let_def split: gofloat.splits if_splits)
  have hundred: "float32 100 = Finite False 100"
    by (simp add: float32_def fl_def round_mag_def ilog2_def bitlen_nat.simps binary32_def
          pow2_def round_half_even_def Let_def)
  have "q * 100 \<le> pow2 63 * pow2 7"
    using q(2,3) by (intro mult_mono) (simp_all add: pow2_def)
  also have "\<dots> = pow2 70" by (simp add: pow2_add [symmetric])
  finally have "finite_upto 70 (fl binary32 ((used < 0) \<noteq> False) (q * 100))"
    using q(2) by (intro fl_finite_upto) (simp_all add: binary32_def)
  then show ?thesis
    by (auto simp: disk_percent_def q(1) hundred finite_upto_def split: gofloat.splits)
qed

lemma digit_char: "k < 10 \<Longrightarrow> is_digit (''0123456789'' ! k)"
proof -
  assume "k < 10"
  then have "k = 0 \<or> k = 1 \<or> k = 2 \<or> k = 3 \<or> k = 4 \<or> k = 5 \<or> k = 6 \<or> k = 7 \<or> k = 8 \<or> k = 9"
    by arith
  then show ?thesis
    by (elim disjE) (simp_all add: is_digit_def digit_of_def)
qed

lemma digits_all: "digits n \<noteq> [] \<and> (\<forall>c \<in> set (digits n). is_digit c)"
proof (induction n rule: digits.induct)
  case (1 n)
  show ?case
  proof (cases "n < 10")
    case True
    then show ?thesis
      by (subst (1 2) digits.simps) (simp add: digit_char)
  next
    case False
    with "1.IH" have "\<forall>c \<in> set (digits (n div 10)). is_digit c" by simp
    moreover have "is_digit (''0123456789'' ! (n mod 10))"
      by (rule digit_char) simp
    ultimately show ?thesis
      using False by (subst (1 2) digits.simps) auto
  qed
qed

lemma digits_two:
  assumes "r < 100"
  shows "\<exists>a b. pad0 2 (digits r) = [a, b] \<and> is_digit a \<and> is_digit b"
proof (cases "r < 10")
  case True
  then have "digits r = [''0123456789'' ! r]" by (subst digits.simps) simp
  moreover have "is_digit (CHR ''0'')" by (simp add: is_digit_def digit_of_def)
  ultimately show ?thesis
    using True by (simp add: pad0_def digit_char)
next
  case False
  then have "r div 10 < 10" using assms by simp
  then have "digits (r div 10) = [''0123456789'' ! (r div 10)]" by (subst digits.simps) simp
  then have "digits r = [''0123456789'' ! (r div 10), ''0123456789'' ! (r mod 10)]"
    using False by (subst digits.simps) simp
  moreover have "is_digit (''0123456789'' ! (r div 10))"
    using \<open>r div 10 < 10\<close> by (rule digit_char)
  moreover have "is_digit (''0123456789'' ! (r mod 10))"
    by (rule digit_char) simp
  ultimately show ?thesis
    by (simp add: pad0_def)
qed

lemma two_decimal_Sprintf: "two_decimal (Sprintf_f 2 (Finite s x))"
proof -
  define n where "n = nat (round_half_even (x * 10 ^ 2))"
  define ds where "ds = digits (n div 10 ^ 2)"
  have ds: "ds \<noteq> []" "\<And>c. c \<in> set ds \<Longrightarrow> is_digit c"
    using digits_all [of "n div 10 ^ 2"] by (simp_all add: ds_def)
  have "n mod 10 ^ 2 < 100" by simp
  from digits_two [OF this] obtain a b where
    ab: "pad0 2 (digits (n mod 10 ^ 2)) = [a, b]" "is_digit a" "is_digit b" by blast
  have str: "Sprintf_f 2 (Finite s x) = (if s then ''-'' else []) @ ds @ CHR ''.'' # [a, b]"
    using ab(1) by (simp add: Let_def n_def ds_def)
  have dot: "\<not> is_digit (CHR ''.'')" by (simp add: is_digit_def digit_of_def)
  have tw: "takeWhile is_digit (ds @ CHR ''.'' # [a, b]) = ds"
    using ds(2) dot by (simp add: takeWhile_append2)
  have dw: "dropWhile is_digit (ds @ CHR ''.'' # [a, b]) = CHR ''.'' # [a, b]"
    using ds(2) dot by (simp add: dropWhile_append2)
  obtain c cs where c: "ds = c # cs" using ds(1) by (cases ds) auto
  have "is_digit c" using ds(2) c by simp
  then have cm: "c \<noteq> CHR ''-''" by (auto simp: is_digit_def digit_of_def)
  show ?thesis
  proof (cases s)
    case True
    then show ?thesis
      unfolding str two_decimal_def using tw dw ds(1) ab(2,3) by simp
  next
    case False
    have "two_decimal (ds @ CHR ''.'' # [a, b])"
      unfolding two_decimal_def using tw dw ds(1) ab(2,3) cm
      by (simp add: c)
    with False show ?thesis unfolding str by simp
  qed
qed

lemma percent_cell_append: "two_decimal t \<Longrightarrow> percent_cell (t @ '' %'')"
  by (simp add: percent_cell_def)

lemma percent_cell_Nil [simp]: "percent_cell []"
  by (simp add: percent_cell_def)
lemma GetStacks_loop_set:
  "GetStacks_loop env stackMemoryDisk stackCpu acc clusters = Inr pre \<Longrightarrow> s \<in> set pre \<Longrightarrow>
   s \<in> set acc \<or> (\<exists>clusterId d. s = stack_utilization env stackMemoryDisk stackCpu clusterId d)"
proof (induction clusters arbitrary: acc)
  case Nil
  then show ?case by simp
next
  case (Cons cluster rest)
  from Cons.prems(1) obtain appGroups where
    f: "appGroupRepo_Fetch env (Cluster.ID cluster) = Inr appGroups" and
    l: "GetStacks_loop env stackMemoryDisk stackCpu
          (acc @ [stack_utilization env stackMemoryDisk stackCpu (Cluster.ID cluster)
                    (reflectClusterToStack_Map env cluster appGroups)]) rest = Inr pre"
    by (auto split: sum.splits)
  from Cons.IH [OF l Cons.prems(2)] show ?case by auto
qed

lemma getStackCpu_cases:
  "getStackCpu env result clusterId = [] \<or>
   (\<exists>v. getStackCpu env result clusterId = Sprintf_f 2 v)"
  by (induction result) (auto split: sum.splits)

lemma Sprintf_f_nonempty: "Sprintf_f 2 v \<noteq> []"
  using digits_all by (cases v) (auto simp: Let_def)

lemma cpu_cell:
  "percent_cell (Sprintf_f 2 v @ '' %'') \<or>
   Sprintf_f 2 v @ '' %'' \<in> {''NaN %'', ''+Inf %'', ''-Inf %''}"
proof (cases v)
  case (Finite s x)
  then show ?thesis
    using two_decimal_Sprintf [of s x] percent_cell_append by blast
next
  case (Infinite s)
  then show ?thesis by simp
next
  case NaN
  then show ?thesis by simp
qed

lemma stack_utilization_cells:
  "percent_cell (DashboardStack.Memory (stack_utilization env stackMemoryDisk stackCpu clusterId d)) \<and>
   percent_cell (DashboardStack.Storage (stack_utilization env stackMemoryDisk stackCpu clusterId d)) \<and>
   (percent_cell (DashboardStack.Cpu (stack_utilization env stackMemoryDisk stackCpu clusterId d)) \<or>
    DashboardStack.Cpu (stack_utilization env stackMemoryDisk stackCpu clusterId d)
      \<in> {''NaN %'', ''+Inf %'', ''-Inf %''})"
proof -
  have z: "minInt64 \<le> 0" "(0::int) \<le> maxInt64" by (simp_all add: minInt64_def maxInt64_def)
  note r = lastValue_range [OF z]
  define free where "free = lastValue 0 ''node_memory_MemFree_bytes'' clusterId stackMemoryDisk"
  define machine where "machine = lastValue 0 ''machine_memory_bytes'' clusterId stackMemoryDisk"
  define used where "used = lastValue 0 ''kubelet_volume_stats_used_bytes'' clusterId stackMemoryDisk"
  define capacity where
    "capacity = lastValue 0 ''kubelet_volume_stats_capacity_bytes'' clusterId stackMemoryDisk"
  have md: "getStackMemoryDisk stackMemoryDisk clusterId =
      (if machine > 0 then Sprintf_f 2 (memory_percent free machine) else [],
       if capacity > 0 then Sprintf_f 2 (disk_percent used capacity) else [])"
    by (simp add: getStackMemoryDisk_def getStackMemoryDisk_loop_last Let_def
          free_def machine_def used_def capacity_def)
  have m: "percent_cell (Sprintf_f 2 (memory_percent free machine) @ '' %'')" if "0 < machine"
  proof -
    from memory_percent_finite [of free machine] that r
    obtain s y where "memory_percent free machine = Finite s y"
      unfolding free_def machine_def by blast
    then show ?thesis
      using two_decimal_Sprintf [of s y] by (simp only: percent_cell_append)
  qed
  have k: "percent_cell (Sprintf_f 2 (disk_percent used capacity) @ '' %'')" if "0 < capacity"
  proof -
    from disk_percent_finite [of used capacity] that r
    obtain s y where "disk_percent used capacity = Finite s y"
      unfolding used_def capacity_def by blast
    then show ?thesis
      using two_decimal_Sprintf [of s y] by (simp only: percent_cell_append)
  qed
  have c: "percent_cell (if getStackCpu env stackCpu clusterId \<noteq> []
                         then getStackCpu env stackCpu clusterId @ '' %''
                         else getStackCpu env stackCpu clusterId) \<or>
           (if getStackCpu env stackCpu clusterId \<noteq> []
            then getStackCpu env stackCpu clusterId @ '' %''
            else getStackCpu env stackCpu clusterId) \<in> {''NaN %'', ''+Inf %'', ''-Inf %''}"
  proof -
    from getStackCpu_cases [of env stackCpu clusterId] show ?thesis
    proof (elim disjE exE)
      assume "getStackCpu env stackCpu clusterId = []"
      then show ?thesis by simp
    next
      fix v
      assume e: "getStackCpu env stackCpu clusterId = Sprintf_f 2 v"
      show ?thesis
        unfolding e using cpu_cell [of v] Sprintf_f_nonempty [of v]
        by (simp del: Sprintf_f.simps)
    qed
  qed
  show ?thesis
    unfolding stack_utilization_def md Let_def
    using m k c Sprintf_f_nonempty by (simp del: Sprintf_f.simps)
qed

text \<open>
  C10, as the code has it. In every summary that \<^verbatim>\<open>GetStacks\<close> returns, the memory and
  the storage fields are the empty string or a two-decimal number followed by
  \<^verbatim>\<open>" %"\<close>. The cpu field is the empty string, such a number followed by \<^verbatim>\<open>" %"\<close>, or,
  when the sample value is NaN or an infinity, \<^verbatim>\<open>"NaN %"\<close>, \<^verbatim>\<open>"+Inf %"\<close> or \<^verbatim>\<open>"-Inf %"\<close>.
  The suffix is appended to non-empty values only. (\<^verbatim>\<open>sort.Slice\<close> only swaps elements:
  the entries of the sorted list are those it was given.)
\<close>

theorem GetStacks_cells:
  assumes "GetStacks env organizationId st = (Inr out, st')"
    and "s \<in> set out"
  shows "percent_cell (DashboardStack.Memory s) \<and>
         percent_cell (DashboardStack.Storage s) \<and>
         (percent_cell (DashboardStack.Cpu s) \<or>
          DashboardStack.Cpu s \<in> {''NaN %'', ''+Inf %'', ''-Inf %''})"
proof -
  from assms(1) obtain clusters stackMemoryDisk stackCpu pre where
    l: "GetStacks_loop env stackMemoryDisk stackCpu [] clusters = Inr pre" and
    o: "out = sort_Slice env (less_RUNNING env) pre"
    using GetStacks_Inr by blast
  have "s \<in> set pre"
    using assms(2) by (simp add: o sort_Slice_set)
  from GetStacks_loop_set [OF l this] obtain clusterId d where
    "s = stack_utilization env stackMemoryDisk stackCpu clusterId d" by auto
  then show ?thesis
    using stack_utilization_cells by simp
qed

lemma env_util_fields:
  "clusterRepo_FetchByOrganizationId env_util =
     (\<lambda>_. Inr [\<lparr>Cluster.ID = ''c1'', Cluster.Name = ''one'', Cluster.Status = ClusterStatus_other 0\<rparr>])"
  "appGroupRepo_Fetch env_util = (\<lambda>_. Inr [])"
  "reflectClusterToStack_Map env_util =
     (\<lambda>c _. \<lparr>DashboardStack.ID = Cluster.ID c, DashboardStack.Status = ''RUNNING'',
               DashboardStack.Cpu = [], DashboardStack.Memory = [], DashboardStack.Storage = []\<rparr>)"
  "thanos_New env_util = (\<lambda>_. Inr 0)"
  "thanos_Get env_util =
     (\<lambda>_ q. if q = query_stackMemoryDisk
             then Inr [sample ''node_memory_MemFree_bytes'' ''c1'' ''2'',
                       sample ''machine_memory_bytes'' ''c1'' ''10'']
             else if q = query_stackCpu then Inr [sample [] ''c1'' ''12.5'']
             else Inr [])"
  "strconv_ParseFloat32 env_util = ParseFloat32_plain"
  by (simp_all add: env_util_def env_demo_def)

lemma env_nan_fields:
  "clusterRepo_FetchByOrganizationId env_nan =
     (\<lambda>_. Inr [\<lparr>Cluster.ID = ''c1'', Cluster.Name = ''one'', Cluster.Status = ClusterStatus_other 0\<rparr>])"
  "appGroupRepo_Fetch env_nan = (\<lambda>_. Inr [])"
  "reflectClusterToStack_Map env_nan =
     (\<lambda>c _. \<lparr>DashboardStack.ID = Cluster.ID c, DashboardStack.Status = ''RUNNING'',
               DashboardStack.Cpu = [], DashboardStack.Memory = [], DashboardStack.Storage = []\<rparr>)"
  "thanos_New env_nan = (\<lambda>_. Inr 0)"
  "thanos_Get env_nan = (\<lambda>_ q. if q = query_stackCpu then Inr [sample [] ''c1'' ''NaN''] else Inr [])"
  "strconv_ParseFloat32 env_nan = ParseFloat32_plain"
  by (simp_all add: env_nan_def env_demo_def)

lemma getThanosUrl_env_util:
  "getThanosUrl env_util ''o1'' state_demo =
     (Inr ''http://thanos.example.com:9090'',
      cache_Set env_demo ''CACHE_KEY_THANOS_URLo1'' ''http://thanos.example.com:9090''
        (perform env_demo (ServicesGet 0 ''lma'' ''thanos-query-frontend'')
          (perform env_demo (GetClientFromClusterId ''c1'')
            (perform env_demo (OrganizationGet ''o1'') state_demo))))"
  by (simp add: getThanosUrl_def getThanosUrl_service_def env_util_def env_demo_def
        state_demo_def cache_Get_def cache_Set_def perform_def prefix_THANOS_URL_def
        Itoa_def digits.simps Let_def)

lemma getThanosUrl_env_nan:
  "getThanosUrl env_nan ''o1'' state_demo =
     (Inr ''http://thanos.example.com:9090'',
      cache_Set env_demo ''CACHE_KEY_THANOS_URLo1'' ''http://thanos.example.com:9090''
        (perform env_demo (ServicesGet 0 ''lma'' ''thanos-query-frontend'')
          (perform env_demo (GetClientFromClusterId ''c1'')
            (perform env_demo (OrganizationGet ''o1'') state_demo))))"
  by (simp add: getThanosUrl_def getThanosUrl_service_def env_nan_def env_demo_def
        state_demo_def cache_Get_def cache_Set_def perform_def prefix_THANOS_URL_def
        Itoa_def digits.simps Let_def)

lemma query_distinct: "query_stackCpu \<noteq> query_stackMemoryDisk"
  by (simp add: query_stackCpu_def query_stackMemoryDisk_def dq_def)

lemma ParseFloat32_plain_12_5: "ParseFloat32_plain ''12.5'' = Inr (Finite False (25 / 2))"
  by (simp add: ParseFloat32_plain_def digit_of_def float_eval)

lemma ParseFloat32_plain_NaN: "ParseFloat32_plain ''NaN'' = Inr NaN"
  by (simp add: ParseFloat32_plain_def)

lemma GetStacks_env_util:
  "fst (GetStacks env_util ''o1'' state_demo) =
     Inr [\<lparr>DashboardStack.ID = ''c1'', DashboardStack.Status = ''RUNNING'',
           DashboardStack.Cpu = ''12.50 %'', DashboardStack.Memory = ''80.00 %'',
           DashboardStack.Storage = []\<rparr>]"
proof -
  have md: "getStackMemoryDisk [sample ''node_memory_MemFree_bytes'' ''c1'' ''2'',
              sample ''machine_memory_bytes'' ''c1'' ''10''] ''c1'' = (''80.00'', [])"
    by (simp add: getStackMemoryDisk_def sample_def Atoi_2 Atoi_10 memory_2_10)
  have cpu: "getStackCpu env_util [sample [] ''c1'' ''12.5''] ''c1'' = ''12.50''"
    by (simp add: sample_def env_util_fields ParseFloat32_plain_12_5 Sprintf_eval)
  have l: "stack_utilization env_util
             [sample ''node_memory_MemFree_bytes'' ''c1'' ''2'',
              sample ''machine_memory_bytes'' ''c1'' ''10'']
             [sample [] ''c1'' ''12.5''] ''c1''
             \<lparr>DashboardStack.ID = ''c1'', DashboardStack.Status = ''RUNNING'',
               DashboardStack.Cpu = [], DashboardStack.Memory = [], DashboardStack.Storage = []\<rparr> =
           \<lparr>DashboardStack.ID = ''c1'', DashboardStack.Status = ''RUNNING'',
             DashboardStack.Cpu = ''12.50 %'', DashboardStack.Memory = ''80.00 %'',
             DashboardStack.Storage = []\<rparr>"
    by (simp add: stack_utilization_def md cpu del: getStackCpu.simps)
  have s: "sort_Slice env_util (less_RUNNING env_util) [x] = [x]" for x
    by (simp add: sort_Slice_RUNNING_small)
  show ?thesis
    unfolding GetStacks_def getThanosUrl_env_util
    using query_distinct
    by (simp add: s l env_util_fields)
qed

theorem GetStacks_cells_witness:
  "fst (GetStacks env_util ''o1'' state_demo) =
     Inr [\<lparr>DashboardStack.ID = ''c1'', DashboardStack.Status = ''RUNNING'',
           DashboardStack.Cpu = ''12.50 %'', DashboardStack.Memory = ''80.00 %'',
           DashboardStack.Storage = []\<rparr>] \<and>
   percent_cell ''80.00 %'' \<and> percent_cell [] \<and> percent_cell ''12.50 %''"
proof -
  obtain r st' where g: "GetStacks env_util ''o1'' state_demo = (r, st')"
    by (cases "GetStacks env_util ''o1'' state_demo")
  with GetStacks_env_util have r: "r = Inr [\<lparr>DashboardStack.ID = ''c1'',
      DashboardStack.Status = ''RUNNING'', DashboardStack.Cpu = ''12.50 %'',
      DashboardStack.Memory = ''80.00 %'', DashboardStack.Storage = []\<rparr>]"
    by simp
  have n: "''12.50 %'' \<notin> {''NaN %'', ''+Inf %'', ''-Inf %''}" by simp
  from GetStacks_cells [OF g [unfolded r], of "\<lparr>DashboardStack.ID = ''c1'',
      DashboardStack.Status = ''RUNNING'', DashboardStack.Cpu = ''12.50 %'',
      DashboardStack.Memory = ''80.00 %'', DashboardStack.Storage = []\<rparr>"] n
  show ?thesis
    using GetStacks_env_util by simp
qed

text \<open>
  A CPU sample with the value \<^verbatim>\<open>NaN\<close>: \<^verbatim>\<open>ParseFloat\<close> accepts it, \<^verbatim>\<open>Sprintf\<close> prints
  \<^verbatim>\<open>NaN\<close>, and the cpu field is \<^verbatim>\<open>"NaN %"\<close>, which is neither empty nor a two-decimal
  number with the suffix.
\<close>

theorem GetStacks_cpu_NaN:
  "fst (GetStacks env_nan ''o1'' state_demo) =
     Inr [\<lparr>DashboardStack.ID = ''c1'', DashboardStack.Status = ''RUNNING'',
           DashboardStack.Cpu = ''NaN %'', DashboardStack.Memory = [],
           DashboardStack.Storage = []\<rparr>] \<and>
   \<not> percent_cell ''NaN %''"
proof -
  have md: "getStackMemoryDisk [] ''c1'' = ([], [])"
    by (simp add: getStackMemoryDisk_def)
  have cpu: "getStackCpu env_nan [sample [] ''c1'' ''NaN''] ''c1'' = ''NaN''"
    by (simp add: sample_def env_nan_fields ParseFloat32_plain_NaN)
  have l: "stack_utilization env_nan [] [sample [] ''c1'' ''NaN''] ''c1''
             \<lparr>DashboardStack.ID = ''c1'', DashboardStack.Status = ''RUNNING'',
               DashboardStack.Cpu = [], DashboardStack.Memory = [], DashboardStack.Storage = []\<rparr> =
           \<lparr>DashboardStack.ID = ''c1'', DashboardStack.Status = ''RUNNING'',
             DashboardStack.Cpu = ''NaN %'', DashboardStack.Memory = [],
             DashboardStack.Storage = []\<rparr>"
    by (simp add: stack_utilization_def md cpu del: getStackCpu.simps)
  have s: "sort_Slice env_nan (less_RUNNING env_nan) [x] = [x]" for x
    by (simp add: sort_Slice_RUNNING_small)
  have n: "\<not> percent_cell ''NaN %''"
    by (simp add: percent_cell_def two_decimal_def is_digit_def digit_of_def)
  have "fst (GetStacks env_nan ''o1'' state_demo) =
     Inr [\<lparr>DashboardStack.ID = ''c1'', DashboardStack.Status = ''RUNNING'',
           DashboardStack.Cpu = ''NaN %'', DashboardStack.Memory = [],
           DashboardStack.Storage = []\<rparr>]"
    unfolding GetStacks_def getThanosUrl_env_nan
    using query_distinct
    by (simp add: s l env_nan_fields)
  with n show ?thesis by simp
qed

lemma fl_binary32_overflow:
  "fl binary32 False 1000000000000000000000000000000000000000 = Infinite False"
proof -
  have il: "ilog2 1000000000000000000000000000000000000000 = 129"
    by (simp add: ilog2_def bitlen_nat.simps floor_rat_numeral)
  have rm: "round_mag binary32 1000000000000000000000000000000000000000 =
            1000000028875798057461573879533485948928"
    unfolding round_mag_def il
    by (simp add: binary32_def pow2_def round_half_even_def Let_def floor_rat_numeral)
  show ?thesis
    unfolding fl_def rm by (simp add: binary32_def pow2_def)
qed

lemma split_point_none: "CHR ''.'' \<notin> set s \<Longrightarrow> split_point s = (s, [])"
  by (induction s) auto

lemma ParseFloat32_plain_overflow:
  "ParseFloat32_plain ''1000000000000000000000000000000000000000'' = Inl ErrRange"
proof -
  have dv: "digits_val 0 ''1000000000000000000000000000000000000000'' =
            Some 1000000000000000000000000000000000000000"
    by (simp add: digit_of_def)
  have sp: "split_point ''1000000000000000000000000000000000000000'' =
            (''1000000000000000000000000000000000000000'', [])"
    by (rule split_point_none) simp
  show ?thesis
    by (simp add: ParseFloat32_plain_def dv sp fl_binary32_overflow
          del: digits_val.simps split_point.simps)
qed

lemma ParseFloat32_plain_1_5: "ParseFloat32_plain ''1.5'' = Inr (Finite False (3 / 2))"
  by (simp add: ParseFloat32_plain_def digit_of_def float_eval)

lemma digits_numeral:
  "digits (numeral k) =
     (if (numeral k :: nat) < 10 then [''0123456789'' ! numeral k]
      else digits (numeral k div 10) @ [''0123456789'' ! (numeral k mod 10)])"
  by (rule digits.simps)

lemma digits_1: "digits (Suc 0) = ''1''"
  by (subst digits.simps) simp

lemma Sprintf_f_6_example: "Sprintf_f 6 (Finite False (3 / 2)) = ''1.500000''"
proof -
  have n: "nat (round_half_even (3 / 2 * 10 ^ 6)) = 1500000"
    by (simp add: round_half_even_def Let_def floor_rat_numeral)
  have d: "digits 500000 = ''500000''"
    by (simp add: digits_numeral)
  show ?thesis
    unfolding Sprintf_f.simps n Let_def
    by (simp add: digits_1 d pad0_def)
qed

lemma env_demo_ParseFloat32: "strconv_ParseFloat32 env_demo = ParseFloat32_plain"
  by (simp add: env_demo_def)

lemma Itoa_2: "Itoa 2 = ''2''"
  by (simp add: Itoa_def digits.simps)

text \<open>
  C1 at a result set the code can receive. The sample at the timestamp 1 carries a
  value beyond the range of \<^verbatim>\<open>float32\<close>, for which \<^verbatim>\<open>strconv.ParseFloat(s, 32)\<close> returns
  a range error; the sample at the timestamp 2 carries \<^verbatim>\<open>1.5\<close>. For the x-axis entry
  \<^verbatim>\<open>2\<close> the cell is empty, since the scan ends at the first sample, although the sample
  that matches parses: alone it gives \<^verbatim>\<open>1.500000\<close>.
\<close>

theorem getChartYValue_unparsable_before_match:
  "getChartYValue env_demo
     [(1, ''1000000000000000000000000000000000000000''), (2, ''1.5'')] ''2'' False = [] \<and>
   getChartYValue env_demo [(2, ''1.5'')] ''2'' False = ''1.500000''"
proof -
  have r: "go_round 2 = 2" by (simp add: go_round_def floor_rat_numeral)
  show ?thesis
    by (simp add: env_demo_ParseFloat32 ParseFloat32_plain_overflow ParseFloat32_plain_1_5
          r Sprintf_f_6_example Itoa_2 del: Sprintf_f.simps)
qed

lemma civil_of_days_19486: "civil_of_days 19486 = (2023, 5, 9)"
proof -
  have y: "year_of_days 19486 = 2023"
    by (simp add: year_of_days_def days_before_year_def Let_def)
  have m: "month_of_yday 2023 128 = 5"
    by (simp add: month_of_yday_def monthStart_def daysBefore_def isLeap_def)
  show ?thesis
    unfolding civil_of_days_def y Let_def
    by (simp add: days_before_year_def m monthStart_def daysBefore_def isLeap_def)
qed

lemma time_Now_demo:
  "time_Now env_demo
     (cache_Set env_demo ''CACHE_KEY_THANOS_URLo1'' ''http://thanos.example.com:9090''
        (perform env_demo (ServicesGet 0 ''lma'' ''thanos-query-frontend'')
          (perform env_demo (GetClientFromClusterId ''c1'')
            (perform env_demo (OrganizationGet ''o1'') state_demo)))) =
   \<lparr>unix = 1683608185, zone = 0\<rparr>"
  by (simp add: time_Now_def cache_Set_def perform_def env_demo_def state_demo_def Let_def)

lemma Time_Date_demo: "Time_Date \<lparr>unix = 1683608185, zone = 0\<rparr> = (2023, 5, 9)"
  by (simp add: Time_Date_def civil_of_days_19486)

lemma Atoi_2023: "Atoi ''2023'' = (2023, None)"
  by (simp add: Atoi_def ParseUint_def maxUint64_def digit_of_def maxInt64_def minInt64_def)

lemma Atoi_6: "Atoi ''6'' = (6, None)"
  by (simp add: Atoi_def ParseUint_def maxUint64_def digit_of_def maxInt64_def minInt64_def)

text \<open>
  C5. \<^verbatim>\<open>getChartFromPrometheus\<close> with the chart type of the pod-restart calendar, once
  the Thanos endpoint and its client are there: when the requested year (the value
  \<^verbatim>\<open>Atoi\<close> gives for the year string) is greater than the year of \<^verbatim>\<open>time.Now()\<close>, the
  result is the error \<^verbatim>\<open>Invalid year\<close>; when the two years are equal and the requested
  month is greater than the month of \<^verbatim>\<open>time.Now()\<close>, the result is the error
  \<^verbatim>\<open>Invalid month\<close>. No alert is fetched and the state is the one after the endpoint
  lookup.
\<close>

theorem getChartFromPrometheus_future:
  assumes "chartType = ChartType_POD_CALENDAR env"
    and "chartType \<notin> {ChartType_CPU env, ChartType_MEMORY env, ChartType_POD env,
                       ChartType_TRAFFIC env}"
    and "getThanosUrl env organizationId st = (Inr thanosUrl, st')"
    and "thanos_New env thanosUrl = Inr thanosClient"
    and "now = time_Now env st'"
  shows "(Time_Year now < fst (Atoi year) \<longrightarrow>
            getChartFromPrometheus env organizationId chartType duration interval year month st =
              Some (Inl (Errorf ''Invalid year''), st')) \<and>
         (Time_Year now = fst (Atoi year) \<and> Time_Month now < fst (Atoi month) \<longrightarrow>
            getChartFromPrometheus env organizationId chartType duration interval year month st =
              Some (Inl (Errorf ''Invalid month''), st'))"
  using assms
  by (auto simp: getChartFromPrometheus_def podCalendar_def Let_def)

theorem getChartFromPrometheus_future_witness:
  "Time_Year \<lparr>unix = 1683608185, zone = 0\<rparr> = 2023 \<and>
   Time_Month \<lparr>unix = 1683608185, zone = 0\<rparr> = 5 \<and>
   getChartFromPrometheus env_demo ''o1'' ''POD_CALENDAR'' [] [] ''2023'' ''6'' state_demo =
     Some (Inl (Errorf ''Invalid month''),
       cache_Set env_demo ''CACHE_KEY_THANOS_URLo1'' ''http://thanos.example.com:9090''
         (perform env_demo (ServicesGet 0 ''lma'' ''thanos-query-frontend'')
           (perform env_demo (GetClientFromClusterId ''c1'')
             (perform env_demo (OrganizationGet ''o1'') state_demo))))"
proof -
  have y: "Time_Year \<lparr>unix = 1683608185, zone = 0\<rparr> = 2023"
    and m: "Time_Month \<lparr>unix = 1683608185, zone = 0\<rparr> = 5"
    by (simp_all add: Time_Year_def Time_Month_def Time_Date_demo)
  have c: "''POD_CALENDAR'' = ChartType_POD_CALENDAR env_demo"
    "''POD_CALENDAR'' \<notin> {ChartType_CPU env_demo, ChartType_MEMORY env_demo,
       ChartType_POD env_demo, ChartType_TRAFFIC env_demo}"
    "thanos_New env_demo ''http://thanos.example.com:9090'' = Inr 0"
    by (simp_all add: env_demo_def)
  from getChartFromPrometheus_future [OF c(1,2) getThanosUrl_demo c(3) time_Now_demo [symmetric],
    of "''2023''" "[]" "[]" "''6''"]
  show ?thesis
    by (simp add: y m Atoi_2023 Atoi_6)
qed

end
